theory Spec2Isabelle
  imports Main "HOL-Library.Word"
begin

unbundle bit_operations_syntax

section \<open>Transposition table (search/hashtable.cpp)\<close>

subsection \<open>Constants and types declared outside the translated sources\<close>

text \<open>
  The translation unit \<^verbatim>\<open>hashtable.cpp\<close> uses constants and helpers that are declared in
  headers which are not part of the sources at hand (\<^verbatim>\<open>hashtable.h\<close>, \<^verbatim>\<open>types.h\<close>,
  \<^verbatim>\<open>pos.h\<close>).  They are collected in one record and every operation takes that record as
  its first argument, so that every result holds for whatever values the headers fix.
\<close>

record tt_consts =
  ENTRIES_PER_BUCKET :: nat
  sizeofBucket :: nat
  DEPTH_LOWER_BOUND :: int
  Pos_NONE :: int
  searchValueToStoredValue :: "int \<Rightarrow> int \<Rightarrow> int"
  storedValueToSearchValue :: "int \<Rightarrow> int \<Rightarrow> int"

text \<open>
  Modelled from the spec: the enum \<^verbatim>\<open>Bound\<close> of \<^verbatim>\<open>types.h\<close> (not among the sources),
  \<open>Bound \<in> {NONE, UPPER, LOWER, EXACT}\<close>, stored in two bits of \<^verbatim>\<open>pvBoundBest16\<close>.
\<close>

datatype Bound = BOUND_NONE | BOUND_UPPER | BOUND_LOWER | BOUND_EXACT

fun bound_code :: "Bound \<Rightarrow> 16 word" where
  "bound_code BOUND_NONE = 0"
| "bound_code BOUND_UPPER = 1"
| "bound_code BOUND_LOWER = 2"
| "bound_code BOUND_EXACT = 3"

definition bound_of :: "16 word \<Rightarrow> Bound" where
  "bound_of c = (if c = 0 then BOUND_NONE else if c = 1 then BOUND_UPPER
                 else if c = 2 then BOUND_LOWER else BOUND_EXACT)"

text \<open>
  Modelled from the spec: the packed entry \<^verbatim>\<open>TTEntry\<close> of \<^verbatim>\<open>hashtable.h\<close> (not among the
  sources): \<open>key32 (4) | value16 (2) | eval16 (2) | pvBoundBest16 (2) | depth8 (1) |
  generation8 (1)\<close>, where \<^verbatim>\<open>data[0]\<close> and \<^verbatim>\<open>data[1]\<close> alias the two halves of the non-key
  fields (little endian) and \<^verbatim>\<open>key()\<close> is \<open>key32 ^ data[0] ^ data[1]\<close>.
\<close>

record TTEntry =
  key32 :: "32 word"
  value16 :: "16 word"
  eval16 :: "16 word"
  pvBoundBest16 :: "16 word"
  depth8 :: "8 word"
  generation8 :: "8 word"

definition data0 :: "TTEntry \<Rightarrow> 32 word" where
  "data0 e = ucast (value16 e) OR push_bit 16 (ucast (eval16 e))"

definition data1 :: "TTEntry \<Rightarrow> 32 word" where
  "data1 e = ucast (pvBoundBest16 e) OR push_bit 16 (ucast (depth8 e))
               OR push_bit 24 (ucast (generation8 e))"

definition key :: "TTEntry \<Rightarrow> 32 word" where
  "key e = key32 e XOR data0 e XOR data1 e"

definition zeroEntry :: TTEntry where
  "zeroEntry = \<lparr>key32 = 0, value16 = 0, eval16 = 0, pvBoundBest16 = 0, depth8 = 0,
                 generation8 = 0\<rparr>"

type_synonym Bucket = "TTEntry list"

text \<open>
  The table: \<^verbatim>\<open>table\<close> is a pointer to an array of \<^verbatim>\<open>numBuckets\<close> buckets, \<open>None\<close> is
  \<^verbatim>\<open>nullptr\<close>.  \<^verbatim>\<open>generation\<close> is the 8-bit search age.
\<close>

record HashTable =
  table :: "Bucket list option"
  numBuckets :: nat
  generation :: "8 word"

text \<open>
  Modelled from the spec: \<^verbatim>\<open>firstEntry\<close> of \<^verbatim>\<open>hashtable.h\<close> (not among the sources),
  \<open>bucketIndex = hash \<cdot> numBuckets >> 64\<close> (wide multiply).
\<close>

definition firstEntry :: "HashTable \<Rightarrow> 64 word \<Rightarrow> nat" where
  "firstEntry t hashKey = (unat hashKey * numBuckets t) div 2 ^ 64"

subsection \<open>resize and clear\<close>

text \<open>What \<^verbatim>\<open>resize\<close> does besides changing the fields of the table, in program order.\<close>

datatype resize_effect = WaitForIdle | FreeTable | AllocBuckets nat | ReportShortfall | ClearTable

text \<open>\<^verbatim>\<open>newNumBuckets\<close> as \<^verbatim>\<open>resize\<close> computes it, in \<^verbatim>\<open>size_t\<close> arithmetic.\<close>

definition derivedNumBuckets :: "tt_consts \<Rightarrow> nat \<Rightarrow> nat" where
  "derivedNumBuckets K hashSizeKB =
     max ((hashSizeKB * (1024 div sizeofBucket K)) mod 2 ^ 64) 1"

text \<open>
  The allocation loop: try \<^verbatim>\<open>tryNumBuckets\<close>, halve on failure.  \<open>alloc n\<close> tells whether the
  allocator can serve \<open>n\<close> buckets.  The result is the number of buckets obtained (0: none).
\<close>

fun allocLoop :: "(nat \<Rightarrow> bool) \<Rightarrow> nat \<Rightarrow> resize_effect list \<times> nat" where
  "allocLoop alloc tryNumBuckets =
     (if tryNumBuckets = 0 then ([], 0)
      else if alloc tryNumBuckets then ([AllocBuckets tryNumBuckets], tryNumBuckets)
      else (let (fx, n) = allocLoop alloc (tryNumBuckets div 2)
            in (AllocBuckets tryNumBuckets # fx, n)))"

declare allocLoop.simps [simp del]

definition clear :: "tt_consts \<Rightarrow> HashTable \<Rightarrow> HashTable" where
  "clear K t = t\<lparr>table := map_option (\<lambda>_. replicate (numBuckets t)
                                 (replicate (ENTRIES_PER_BUCKET K) zeroEntry)) (table t),
                generation := 0\<rparr>"

text \<open>
  \<^verbatim>\<open>resize\<close>: the second component is \<open>None\<close> when the process exits because not even one
  bucket could be allocated.  A freshly allocated array has no defined contents before
  \<^verbatim>\<open>clear\<close> zeroes it; \<open>fresh\<close> stands for them.
\<close>

definition resize ::
  "tt_consts \<Rightarrow> (nat \<Rightarrow> bool) \<Rightarrow> Bucket list \<Rightarrow> nat \<Rightarrow> HashTable
     \<Rightarrow> resize_effect list \<times> HashTable option" where
  "resize K alloc fresh hashSizeKB t =
     (let newNumBuckets = derivedNumBuckets K hashSizeKB in
      if newNumBuckets \<noteq> numBuckets t then
        (let fx1 = (if table t \<noteq> None then [WaitForIdle, FreeTable] else []);
             (fx2, tryNumBuckets) = allocLoop alloc newNumBuckets;
             t1 = t\<lparr>numBuckets := newNumBuckets,
                    table := (if tryNumBuckets = 0 then None else Some fresh)\<rparr>
         in if tryNumBuckets \<noteq> newNumBuckets then
              (if tryNumBuckets = 0 then (fx1 @ fx2 @ [ReportShortfall], None)
               else (fx1 @ fx2 @ [ReportShortfall, ClearTable],
                     Some (clear K (t1\<lparr>numBuckets := tryNumBuckets\<rparr>))))
            else (fx1 @ fx2 @ [ClearTable], Some (clear K t1)))
      else ([], Some t))"

subsection \<open>probe\<close>

text \<open>
  A bucket is a C++ array of \<^verbatim>\<open>ENTRIES_PER_BUCKET\<close> entries and the table an array of
  \<^verbatim>\<open>numBuckets\<close> buckets; as lists they carry their lengths, which \<open>wf_table\<close> fixes.
\<close>

definition wf_table :: "tt_consts \<Rightarrow> HashTable \<Rightarrow> bool" where
  "wf_table K t =
     (case table t of None \<Rightarrow> False
      | Some tb \<Rightarrow> 0 < numBuckets t \<and> length tb = numBuckets t \<and> 0 < ENTRIES_PER_BUCKET K
                   \<and> list_all (\<lambda>b. length b = ENTRIES_PER_BUCKET K) tb)"

text \<open>The loop of \<^verbatim>\<open>probe\<close> over the bucket: the first index whose entry carries the key.\<close>

fun probeLoop :: "Bucket \<Rightarrow> 32 word \<Rightarrow> nat list \<Rightarrow> nat option" where
  "probeLoop entry k [] = None"
| "probeLoop entry k (i # is) =
     (if key (entry ! i) = k then Some i else probeLoop entry k is)"

record probe_out =
  ttValue :: int
  ttEval :: int
  ttIsPv :: bool
  ttBound :: Bound
  ttMove :: int
  ttDepth :: int

text \<open>
  \<^verbatim>\<open>probe\<close>: the result is \<open>None\<close> for a \<^verbatim>\<open>nullptr\<close> table; otherwise the outputs (\<open>Some\<close>
  when \<^verbatim>\<open>probe\<close> returns true, the reference parameters being written only then) and the
  table, in which a hit refreshes \<^verbatim>\<open>generation8\<close> and re-folds \<^verbatim>\<open>key32\<close>.
\<close>

definition probe ::
  "tt_consts \<Rightarrow> 64 word \<Rightarrow> int \<Rightarrow> HashTable \<Rightarrow> (probe_out option \<times> HashTable) option" where
  "probe K hashKey ply t =
     (case table t of None \<Rightarrow> None
      | Some tb \<Rightarrow>
         (let b = firstEntry t hashKey;
              entry = tb ! b;
              k32 = (ucast hashKey :: 32 word)
          in case probeLoop entry k32 [0..<ENTRIES_PER_BUCKET K] of
               None \<Rightarrow> Some (None, t)
             | Some i \<Rightarrow>
                 (let tte = entry ! i;
                      e1 = (entry ! i)\<lparr>generation8 := generation t\<rparr>;
                      e2 = e1\<lparr>key32 := key32 e1 XOR (data1 tte XOR data1 e1)\<rparr>
                  in Some (Some \<lparr>ttValue = storedValueToSearchValue K (sint (value16 tte)) ply,
                                  ttEval = sint (eval16 tte),
                                  ttIsPv = (drop_bit 15 (pvBoundBest16 tte) \<noteq> 0),
                                  ttBound = bound_of (drop_bit 13 (pvBoundBest16 tte) AND 3),
                                  ttMove = uint (pvBoundBest16 tte AND 0x3ff),
                                  ttDepth = uint (depth8 tte) + DEPTH_LOWER_BOUND K\<rparr>,
                           t\<lparr>table := Some (tb[b := entry[i := e2]])\<rparr>))))"

subsection \<open>store\<close>

text \<open>
  \<^verbatim>\<open>replaceValue\<close>: both 8-bit operands of the subtraction are promoted to \<^verbatim>\<open>int\<close>, so
  nothing wraps.
\<close>

definition replaceValue :: "8 word \<Rightarrow> TTEntry \<Rightarrow> int" where
  "replaceValue gen e = uint (depth8 e) - (uint gen - uint (generation8 e))"

text \<open>
  The loop of \<^verbatim>\<open>store\<close>: \<open>r\<close> is the index \<^verbatim>\<open>replace\<close> points to; a key match ends the
  loop.
\<close>

fun storeLoop :: "Bucket \<Rightarrow> 8 word \<Rightarrow> 32 word \<Rightarrow> nat \<Rightarrow> nat list \<Rightarrow> nat" where
  "storeLoop entry gen k r [] = r"
| "storeLoop entry gen k r (i # is) =
     (if key (entry ! i) = k then i
      else storeLoop entry gen k
             (if replaceValue gen (entry ! i) < replaceValue gen (entry ! r) then i else r) is)"

text \<open>The condition under which \<^verbatim>\<open>store\<close> returns before writing.\<close>

definition storeSkips :: "tt_consts \<Rightarrow> Bound \<Rightarrow> 32 word \<Rightarrow> int \<Rightarrow> TTEntry \<Rightarrow> bool" where
  "storeSkips K bound newKey32 depth old =
     (bound \<noteq> BOUND_EXACT \<and> newKey32 = key old
      \<and> depth + 2 < uint (depth8 old) + DEPTH_LOWER_BOUND K)"

text \<open>The entry \<^verbatim>\<open>store\<close> builds on its stack (\<^verbatim>\<open>newEntry\<close>).\<close>

definition newEntry ::
  "tt_consts \<Rightarrow> 8 word \<Rightarrow> 32 word \<Rightarrow> int \<Rightarrow> int \<Rightarrow> bool \<Rightarrow> Bound \<Rightarrow> int \<Rightarrow> int \<Rightarrow> int \<Rightarrow> TTEntry" where
  "newEntry K gen newKey32 val eval isPv bound move depth ply =
     (let e = \<lparr>key32 = 0,
               value16 = word_of_int (searchValueToStoredValue K val ply),
               eval16 = word_of_int eval,
               pvBoundBest16 = push_bit 15 (of_bool isPv) OR push_bit 13 (bound_code bound)
                                 OR word_of_int move,
               depth8 = word_of_int (depth - DEPTH_LOWER_BOUND K),
               generation8 = gen\<rparr>
      in e\<lparr>key32 := newKey32 XOR data0 e XOR data1 e\<rparr>)"

text \<open>The slot \<^verbatim>\<open>store\<close> selects in the bucket of \<open>hashKey\<close>.\<close>

definition replaceIndex :: "tt_consts \<Rightarrow> 64 word \<Rightarrow> HashTable \<Rightarrow> Bucket \<Rightarrow> nat" where
  "replaceIndex K hashKey t entry =
     storeLoop entry (generation t) (ucast hashKey) 0 [0..<ENTRIES_PER_BUCKET K]"

definition store ::
  "tt_consts \<Rightarrow> 64 word \<Rightarrow> int \<Rightarrow> int \<Rightarrow> bool \<Rightarrow> Bound \<Rightarrow> int \<Rightarrow> int \<Rightarrow> int \<Rightarrow> HashTable
     \<Rightarrow> HashTable option" where
  "store K hashKey val eval isPv bound move depth ply t =
     (case table t of None \<Rightarrow> None
      | Some tb \<Rightarrow>
         (let b = firstEntry t hashKey;
              entry = tb ! b;
              newKey32 = (ucast hashKey :: 32 word);
              r = replaceIndex K hashKey t entry;
              old = entry ! r;
              oldKey32 = key old
          in if storeSkips K bound newKey32 depth old then Some t
             else
               (let move' = (if move = Pos_NONE K \<and> newKey32 = oldKey32
                             then uint (pvBoundBest16 old AND 0x3ff) else move)
                in Some (t\<lparr>table := Some (tb[b := entry[r :=
                     newEntry K (generation t) newKey32 val eval isPv bound move' depth ply]])\<rparr>))))"

subsection \<open>hashUsage\<close>

text \<open>The inner loop of \<^verbatim>\<open>hashUsage\<close> over one bucket and the outer loop over the sample.\<close>

definition usedEntry :: "8 word \<Rightarrow> TTEntry \<Rightarrow> bool" where
  "usedEntry gen e = (depth8 e \<noteq> 0 \<and> generation8 e = gen)"

fun countBucket :: "8 word \<Rightarrow> Bucket \<Rightarrow> nat list \<Rightarrow> nat \<Rightarrow> nat" where
  "countBucket gen entry [] cnt = cnt"
| "countBucket gen entry (j # js) cnt =
     countBucket gen entry js (cnt + (if usedEntry gen (entry ! j) then 1 else 0))"

fun countSample :: "tt_consts \<Rightarrow> 8 word \<Rightarrow> Bucket list \<Rightarrow> nat list \<Rightarrow> nat \<Rightarrow> nat" where
  "countSample K gen tb [] cnt = cnt"
| "countSample K gen tb (i # is) cnt =
     countSample K gen tb is (countBucket gen (tb ! i) [0..<ENTRIES_PER_BUCKET K] cnt)"

text \<open>
  \<^verbatim>\<open>hashUsage\<close>, in \<^verbatim>\<open>size_t\<close> arithmetic.  The division has no defined result when the
  divisor is zero; the model returns \<open>None\<close> there (and for a \<^verbatim>\<open>nullptr\<close> table).
\<close>

definition hashUsage :: "tt_consts \<Rightarrow> HashTable \<Rightarrow> int option" where
  "hashUsage K t =
     (case table t of None \<Rightarrow> None
      | Some tb \<Rightarrow>
         (let testCnt = drop_bit 10 (numBuckets t);
              cnt = countSample K (generation t) tb [0..<testCnt] 0;
              divisor = (ENTRIES_PER_BUCKET K * testCnt) mod 2 ^ 64
          in if divisor = 0 then None
             else Some (int ((cnt * 1000) mod 2 ^ 64 div divisor))))"

subsection \<open>A concrete table: scenarios S1 and S2\<close>

text \<open>
  An instance of the header constants (a 64-byte bucket of five entries) and the 1-KB table
  of scenario S1, before and after the store of S1.
\<close>

definition exampleConsts :: tt_consts where
  "exampleConsts = \<lparr>ENTRIES_PER_BUCKET = 5, sizeofBucket = 64, DEPTH_LOWER_BOUND = - 20,
       Pos_NONE = 0, searchValueToStoredValue = (\<lambda>v p. v),
       storedValueToSearchValue = (\<lambda>v p. v)\<rparr>"

definition hashS1 :: "64 word" where
  "hashS1 = 0xDEADBEEFCAFEBABE"

definition emptyTable1KB :: HashTable where
  "emptyTable1KB = \<lparr>table = Some (replicate 16 (replicate 5 zeroEntry)), numBuckets = 16,
       generation = 0\<rparr>"

definition entryS1 :: TTEntry where
  "entryS1 = newEntry exampleConsts 0 0xCAFEBABE 100 50 True BOUND_EXACT 231 (- 15) 0"

definition tableS1 :: HashTable where
  "tableS1 = \<lparr>table = Some ((replicate 16 (replicate 5 zeroEntry))
                  [13 := (replicate 5 zeroEntry)[0 := entryS1]]),
       numBuckets = 16, generation = 0\<rparr>"

definition emptyTable1MB :: HashTable where
  "emptyTable1MB = \<lparr>table = Some (replicate 16384 (replicate 5 zeroEntry)),
       numBuckets = 16384, generation = 0\<rparr>"

section \<open>Weight loaders and the weight registry (eval/weightloader.h, eval/mix8nnue.cpp)\<close>

subsection \<open>Input streams\<close>

text \<open>
  A \<^verbatim>\<open>std::istream\<close> as the loaders use it: the bytes not yet read and the two state bits
  that unformatted input sets.  \<^verbatim>\<open>read\<close> and \<^verbatim>\<open>ignore\<close> do nothing but set \<^verbatim>\<open>failbit\<close> on a
  stream that is not good; \<^verbatim>\<open>read\<close> sets \<^verbatim>\<open>eofbit\<close> and \<^verbatim>\<open>failbit\<close> when it runs out of
  bytes, \<^verbatim>\<open>ignore\<close> only \<^verbatim>\<open>eofbit\<close>.
\<close>

type_synonym byte = "8 word"

record istream =
  buf :: "byte list"
  eofbit :: bool
  failbit :: bool

definition good :: "istream \<Rightarrow> bool" where
  "good s = (\<not> eofbit s \<and> \<not> failbit s)"

text \<open>\<open>is.read(dst, n)\<close>: the destination keeps its old contents where nothing was read.\<close>

definition is_read :: "byte list \<Rightarrow> nat \<Rightarrow> istream \<Rightarrow> byte list \<times> istream" where
  "is_read dst n s =
     (if \<not> good s then (dst, s\<lparr>failbit := True\<rparr>)
      else if n \<le> length (buf s) then (take n (buf s) @ drop n dst, s\<lparr>buf := drop n (buf s)\<rparr>)
      else (buf s @ drop (length (buf s)) dst, s\<lparr>buf := [], eofbit := True, failbit := True\<rparr>))"

definition is_ignore :: "nat \<Rightarrow> istream \<Rightarrow> istream" where
  "is_ignore n s =
     (if \<not> good s then s\<lparr>failbit := True\<rparr>
      else if n \<le> length (buf s) then s\<lparr>buf := drop n (buf s)\<rparr>
      else s\<lparr>buf := [], eofbit := True\<rparr>)"

text \<open>The test \<^verbatim>\<open>in && in.peek() == std::ios::traits_type::eof()\<close>.\<close>

definition at_eof :: "istream \<Rightarrow> bool" where
  "at_eof s = (\<not> failbit s \<and> (\<not> good s \<or> buf s = []))"

text \<open>A 32-bit little-endian field of a raw buffer, at byte offset \<open>off\<close>.\<close>

definition le32 :: "byte list \<Rightarrow> nat \<Rightarrow> 32 word" where
  "le32 bs off = ucast (bs ! off) OR push_bit 8 (ucast (bs ! (off + 1)))
                   OR push_bit 16 (ucast (bs ! (off + 2))) OR push_bit 24 (ucast (bs ! (off + 3)))"

subsection \<open>Loaders\<close>

datatype Rule = FREESTYLE | STANDARD | RENJU

text \<open>
  The exceptions that the header validator of the Mix8 evaluator throws, and the three ways
  a call can end: it returns a value, it throws, or its behaviour is undefined (a write
  past the end of a buffer).  The first two carry the state the call leaves behind.
\<close>

datatype error = IncompatibleWeightFileError | UnsupportedRuleError Rule
  | UnsupportedBoardSizeError int

datatype ('a, 's) outcome = Returns 'a 's | Throws error 's | Undefined

text \<open>
  A \<^verbatim>\<open>WeightLoader\<close> is an object whose \<^verbatim>\<open>load\<close> may change it: \<open>load\<close> takes the state of the
  loader and the stream; when it returns, it returns the weight (\<open>None\<close> for \<^verbatim>\<open>nullptr\<close>).
\<close>

type_synonym ('l, 'w) load = "'l \<Rightarrow> istream \<Rightarrow> ('w option, 'l) outcome"

record StandardHeader =
  archHash :: "32 word"
  supportedRules :: "Rule list"
  supportedBoardSizes :: "int list"
  description :: "byte list"

definition parseRuleMask :: "32 word \<Rightarrow> Rule list" where
  "parseRuleMask ruleMask =
     (if ruleMask AND 1 \<noteq> 0 then [FREESTYLE] else [])
     @ (if ruleMask AND 2 \<noteq> 0 then [STANDARD] else [])
     @ (if ruleMask AND 4 \<noteq> 0 then [RENJU] else [])"

definition parseBoardSizeMask :: "32 word \<Rightarrow> int list" where
  "parseBoardSizeMask boardSizeMask =
     concat (map (\<lambda>i. if drop_bit i boardSizeMask AND 1 \<noteq> 0 then [int i + 1] else []) [0..<32])"

text \<open>
  \<^verbatim>\<open>StandardHeaderParserWarpper::load\<close>.  \<open>headerData\<close> is the content of the local
  \<^verbatim>\<open>RawHeaderData\<close> before the read (it is not initialised, and the read is not checked).
\<close>

definition headerMagic :: "32 word" where
  "headerMagic = 0xacd8cc6a"

definition readHeader :: "byte list \<Rightarrow> istream \<Rightarrow> byte list \<times> istream" where
  "readHeader headerData inputStream = is_read headerData 20 inputStream"

text \<open>
  The description: \<^verbatim>\<open>description.resize(desc_len + 1)\<close> sizes the buffer in 32-bit
  arithmetic, so that \<open>desc_len = 0xffffffff\<close> gives a buffer of no bytes, and
  \<^verbatim>\<open>read(description.data(), desc_len)\<close> stores as many bytes as a good stream still has,
  up to \<open>desc_len\<close>.  Storing more bytes than the buffer has is undefined behaviour (\<open>None\<close>).
  The allocation of the buffer is taken to succeed, as every allocation here is.
\<close>

definition readDescription :: "32 word \<Rightarrow> istream \<Rightarrow> (byte list \<times> istream) option" where
  "readDescription desc_len s =
     (let size = unat (desc_len + 1);
          stored = (if good s then min (unat desc_len) (length (buf s)) else 0)
      in if size < stored then None
         else Some (is_read (replicate size 0) (unat desc_len) s))"

text \<open>The \<^verbatim>\<open>StandardHeader\<close> the wrapper builds from the raw header and the description.\<close>

definition standardHeader :: "byte list \<Rightarrow> byte list \<Rightarrow> StandardHeader" where
  "standardHeader raw desc =
     \<lparr>archHash = le32 raw 4, supportedRules = parseRuleMask (le32 raw 8),
      supportedBoardSizes = parseBoardSizeMask (le32 raw 12), description = desc\<rparr>"

text \<open>
  A validator is a \<^verbatim>\<open>std::function<bool(StandardHeader)>\<close>: it returns a truth value or
  throws (\<open>Inl\<close>).  An exception of the validator leaves \<^verbatim>\<open>load\<close> before the base loader
  is reached.
\<close>

definition StandardHeaderParserWarpper_load ::
  "(StandardHeader \<Rightarrow> error + bool) option \<Rightarrow> byte list \<Rightarrow> ('l, 'w) load \<Rightarrow> ('l, 'w) load" where
  "StandardHeaderParserWarpper_load headerValidator headerData base l inputStream =
     (let (raw, s1) = readHeader headerData inputStream in
      if le32 raw 0 \<noteq> headerMagic then Returns None l
      else
        (case headerValidator of
           Some validator \<Rightarrow>
             (case readDescription (le32 raw 16) s1 of
                None \<Rightarrow> Undefined
              | Some (desc, s2) \<Rightarrow>
                 (case validator (standardHeader raw desc) of
                    Inl e \<Rightarrow> Throws e l
                  | Inr accepted \<Rightarrow> if \<not> accepted then Returns None l else base l s2))
         | None \<Rightarrow> base l (is_ignore (unat (le32 raw 16)) s1)))"

text \<open>
  \<^verbatim>\<open>CompressedWrapper::load\<close>; \<open>openInputStream\<close> stands for the \<^verbatim>\<open>Compressor\<close> of
  \<^verbatim>\<open>core/iohelper.h\<close> (not among the sources): it yields the decoded stream or \<^verbatim>\<open>nullptr\<close>.
\<close>

definition CompressedWrapper_load ::
  "(istream \<Rightarrow> istream option) \<Rightarrow> ('l, 'w) load \<Rightarrow> ('l, 'w) load" where
  "CompressedWrapper_load openInputStream base l rawInputStream =
     (case openInputStream rawInputStream of
        None \<Rightarrow> Returns None l
      | Some is \<Rightarrow> base l is)"

text \<open>
  \<^verbatim>\<open>Mix8BinaryWeightLoader::load\<close>.  The sizes of the fields of \<^verbatim>\<open>Mix8Weight\<close> come from
  \<^verbatim>\<open>mix8nnue.h\<close> (not among the sources) and are parameters; the weight is kept as the raw
  bytes of its fields.  \<^verbatim>\<open>make_unique<Mix8Weight>()\<close> zero-initialises the weight.
\<close>

record mix8_sizes =
  sizeof_mapping :: nat
  sizeof_map_prelu_weight :: nat
  sizeof_feature_dwconv_weight :: nat
  sizeof_feature_dwconv_bias :: nat
  sizeof_padding_to_64bytes_0 :: nat
  sizeof_HeadBucket :: nat
  MaxNumBuckets :: nat

record Mix8WeightBytes =
  mapping_bytes :: "byte list"
  map_prelu_weight_bytes :: "byte list"
  feature_dwconv_weight_bytes :: "byte list"
  feature_dwconv_bias_bytes :: "byte list"
  value_sum_scale_after_conv_bytes :: "byte list"
  value_sum_scale_direct_bytes :: "byte list"
  num_head_buckets :: "32 word"
  buckets_bytes :: "byte list list"

text \<open>The loop over the head buckets: read the first \<open>num_head_buckets\<close>, zero the rest.\<close>

fun readBuckets :: "mix8_sizes \<Rightarrow> int \<Rightarrow> nat list \<Rightarrow> istream \<Rightarrow> byte list list \<times> istream" where
  "readBuckets Z n [] s = ([], s)"
| "readBuckets Z n (i # is) s =
     (if int i < n
      then (let (b, s1) = is_read (replicate (sizeof_HeadBucket Z) 0) (sizeof_HeadBucket Z) s;
                (bs, s2) = readBuckets Z n is s1
            in (b # bs, s2))
      else (let (bs, s2) = readBuckets Z n is s
            in (replicate (sizeof_HeadBucket Z) 0 # bs, s2)))"

text \<open>The reads up to and including \<^verbatim>\<open>num_head_buckets\<close>.\<close>

definition readBodyHead :: "mix8_sizes \<Rightarrow> istream \<Rightarrow> Mix8WeightBytes \<times> istream" where
  "readBodyHead Z s =
     (let (m, s1) = is_read (replicate (sizeof_mapping Z) 0) (sizeof_mapping Z) s;
          (p, s2) = is_read (replicate (sizeof_map_prelu_weight Z) 0) (sizeof_map_prelu_weight Z) s1;
          (cw, s3) = is_read (replicate (sizeof_feature_dwconv_weight Z) 0)
                       (sizeof_feature_dwconv_weight Z) s2;
          (cb, s4) = is_read (replicate (sizeof_feature_dwconv_bias Z) 0)
                       (sizeof_feature_dwconv_bias Z) s3;
          (sc, s5) = is_read (replicate 4 0) 4 s4;
          (sd, s6) = is_read (replicate 4 0) 4 s5;
          (nb, s7) = is_read (replicate 4 0) 4 s6
      in (\<lparr>mapping_bytes = m, map_prelu_weight_bytes = p, feature_dwconv_weight_bytes = cw,
            feature_dwconv_bias_bytes = cb, value_sum_scale_after_conv_bytes = sc,
            value_sum_scale_direct_bytes = sd, num_head_buckets = le32 nb 0,
            buckets_bytes = replicate (MaxNumBuckets Z) (replicate (sizeof_HeadBucket Z) 0)\<rparr>,
          s7))"

text \<open>The rest of the body: the padding and the head buckets.\<close>

definition readBodyTail :: "mix8_sizes \<Rightarrow> Mix8WeightBytes \<Rightarrow> istream \<Rightarrow> Mix8WeightBytes \<times> istream" where
  "readBodyTail Z w s7 =
     (let s8 = is_ignore (sizeof_padding_to_64bytes_0 Z) s7;
          (bs, s9) = readBuckets Z (sint (num_head_buckets w)) [0..<MaxNumBuckets Z] s8
      in (w\<lparr>buckets_bytes := bs\<rparr>, s9))"

definition Mix8BinaryWeightLoader_load :: "mix8_sizes \<Rightarrow> istream \<Rightarrow> Mix8WeightBytes option" where
  "Mix8BinaryWeightLoader_load Z inp =
     (let (w, s7) = readBodyHead Z inp in
      if sint (num_head_buckets w) < 1 \<or> sint (num_head_buckets w) > int (MaxNumBuckets Z)
      then None
      else (let (w', s9) = readBodyTail Z w s7
            in if at_eof s9 then Some w' else None))"

text \<open>The loader the evaluator builds: compressed, standard header, Mix8 body.\<close>

definition mix8Loader ::
  "(istream \<Rightarrow> istream option) \<Rightarrow> (StandardHeader \<Rightarrow> error + bool) option \<Rightarrow> byte list
     \<Rightarrow> mix8_sizes \<Rightarrow> ('l, Mix8WeightBytes) load" where
  "mix8Loader openInputStream headerValidator headerData Z =
     CompressedWrapper_load openInputStream
       (StandardHeaderParserWarpper_load headerValidator headerData
          (\<lambda>l s. Returns (Mix8BinaryWeightLoader_load Z s) l))"

text \<open>
  The validator that the constructor of \<^verbatim>\<open>Mix8Evaluator\<close> sets, for its rule and board size;
  \<open>ArchHash\<close> is the constant of that name, built from dimensions of \<^verbatim>\<open>mix8nnue.h\<close> (not among
  the sources).  It never returns false: it throws.
\<close>

definition mix8Validator :: "32 word \<Rightarrow> Rule \<Rightarrow> int \<Rightarrow> StandardHeader \<Rightarrow> error + bool" where
  "mix8Validator ArchHash rule boardSize header =
     (if archHash header \<noteq> ArchHash then Inl IncompatibleWeightFileError
      else if rule \<notin> set (supportedRules header) then Inl (UnsupportedRuleError rule)
      else if boardSize \<notin> set (supportedBoardSizes header)
        then Inl (UnsupportedBoardSizeError boardSize)
      else Inr True)"

subsection \<open>The registry\<close>

text \<open>
  The pool holds, per entry, the path, the address of the weight its \<^verbatim>\<open>unique_ptr\<close> owns, and
  the reference count.  \<open>objs\<close> are the weights alive on the heap, by address; address 0 is
  \<^verbatim>\<open>nullptr\<close>.  An allocation takes an address that no live weight has.
\<close>

text \<open>
  Paths are \<^verbatim>\<open>std::filesystem::path\<close> values, kept as the strings they were built from.  Their
  \<^verbatim>\<open>operator==\<close> is that of the C++ standard library, not of the sources at hand: two paths
  are equal when both or neither have a root directory and their file names are equal one by
  one.  Here for the generic format without a root name (POSIX): a run of separators counts
  as one separator, and a separator at the end is followed by an empty file name.
\<close>

fun splitElems :: "string \<Rightarrow> string \<Rightarrow> string list" where
  "splitElems cur [] = [cur]"
| "splitElems cur (c # cs) =
     (if c = CHR ''/''
      then (if cs \<noteq> [] \<and> hd cs = CHR ''/'' then splitElems cur cs else cur # splitElems [] cs)
      else splitElems (cur @ [c]) cs)"

definition pathParts :: "string \<Rightarrow> bool \<times> string list" where
  "pathParts p =
     (let rel = dropWhile (\<lambda>c. c = CHR ''/'') p
      in (p \<noteq> [] \<and> hd p = CHR ''/'', if rel = [] then [] else splitElems [] rel))"

definition pathEq :: "string \<Rightarrow> string \<Rightarrow> bool" where
  "pathEq p q = (pathParts p = pathParts q)"

record LoadedWeight =
  filepath :: string
  weight :: nat
  refCount :: nat

record 'w WeightRegistry =
  pool :: "LoadedWeight list"
  objs :: "(nat \<times> 'w) list"

definition newAddr :: "(nat \<times> 'w) list \<Rightarrow> nat" where
  "newAddr os = Suc (foldr max (map fst os) 0)"

definition live :: "'w WeightRegistry \<Rightarrow> nat \<Rightarrow> bool" where
  "live reg a = (a \<in> fst ` set (objs reg))"

text \<open>The search of \<^verbatim>\<open>loadWeightFromFile\<close>: a hit bumps the count and yields the pointer.\<close>

fun findLoaded :: "string \<Rightarrow> LoadedWeight list \<Rightarrow> (nat \<times> LoadedWeight list) option" where
  "findLoaded path [] = None"
| "findLoaded path (w # ws) =
     (if pathEq (filepath w) path
      then Some (weight w, w\<lparr>refCount := (refCount w + 1) mod 2 ^ 64\<rparr> # ws)
      else map_option (\<lambda>(p, ws'). (p, w # ws')) (findLoaded path ws))"

text \<open>
  \<^verbatim>\<open>loadWeightFromFile\<close>: \<open>fs path binary\<close> is the content of the file when it can be opened
  in the mode the loader asks for.  When it returns, it returns the pointer (\<open>None\<close> for
  \<^verbatim>\<open>nullptr\<close>); the state is the registry and the loader.  An exception of the loader passes
  through it, the pool not having been touched.
\<close>

definition loadWeightFromFile ::
  "(string \<Rightarrow> bool \<Rightarrow> byte list option) \<Rightarrow> ('l, 'w) load \<Rightarrow> bool \<Rightarrow> string
     \<Rightarrow> 'w WeightRegistry \<times> 'l \<Rightarrow> (nat option, 'w WeightRegistry \<times> 'l) outcome" where
  "loadWeightFromFile fs load needsBinaryStream path = (\<lambda>(reg, l).
     (case findLoaded path (pool reg) of
        Some (p, pool') \<Rightarrow> Returns (Some p) (reg\<lparr>pool := pool'\<rparr>, l)
      | None \<Rightarrow>
         (case fs path needsBinaryStream of
            None \<Rightarrow> Returns None (reg, l)
          | Some content \<Rightarrow>
             (case load l \<lparr>buf = content, eofbit = False, failbit = False\<rparr> of
                Returns (Some w) l' \<Rightarrow>
                  (let a = newAddr (objs reg)
                   in Returns (Some a)
                       (reg\<lparr>pool := pool reg @ [\<lparr>filepath = path, weight = a, refCount = 1\<rparr>],
                            objs := (a, w) # objs reg\<rparr>,
                        l'))
              | Returns None l' \<Rightarrow> Returns None (reg, l')
              | Throws e l' \<Rightarrow> Throws e (reg, l')
              | Undefined \<Rightarrow> Undefined))))"

text \<open>
  The loop of \<^verbatim>\<open>unloadWeight\<close>: the first entry with that pointer has its count decremented
  (in \<^verbatim>\<open>size_t\<close>) and is erased at zero; the second component is the address of the weight
  that the erased \<^verbatim>\<open>unique_ptr\<close> destroys.
\<close>

fun unloadLoop :: "nat \<Rightarrow> LoadedWeight list \<Rightarrow> LoadedWeight list \<times> nat option" where
  "unloadLoop p [] = ([], None)"
| "unloadLoop p (w # ws) =
     (if weight w = p
      then (if (refCount w + 2 ^ 64 - 1) mod 2 ^ 64 = 0 then (ws, Some p)
            else (w\<lparr>refCount := (refCount w + 2 ^ 64 - 1) mod 2 ^ 64\<rparr> # ws, None))
      else (let (ws', d) = unloadLoop p ws in (w # ws', d)))"

definition unloadWeight :: "nat \<Rightarrow> 'w WeightRegistry \<Rightarrow> 'w WeightRegistry" where
  "unloadWeight p reg =
     (let (pool', d) = unloadLoop p (pool reg)
      in reg\<lparr>pool := pool',
             objs := (case d of None \<Rightarrow> objs reg
                      | Some a \<Rightarrow> filter (\<lambda>(b, w). b \<noteq> a) (objs reg))\<rparr>)"

text \<open>What holds of every registry the two operations can build from the empty one.\<close>

definition emptyRegistry :: "'w WeightRegistry" where
  "emptyRegistry = \<lparr>pool = [], objs = []\<rparr>"

definition wf_registry :: "'w WeightRegistry \<Rightarrow> bool" where
  "wf_registry reg =
     (distinct (map weight (pool reg)) \<and> distinct (map (\<lambda>e. pathParts (filepath e)) (pool reg))
      \<and> distinct (map fst (objs reg))
      \<and> list_all (\<lambda>e. weight e \<in> fst ` set (objs reg)) (pool reg))"

subsection \<open>Concrete files, loaders and registries\<close>

definition exampleFs :: "string \<Rightarrow> bool \<Rightarrow> byte list option" where
  "exampleFs path binary = (if path = ''missing.bin'' then None else Some [])"

definition countingLoader :: "(nat, byte list) load" where
  "countingLoader l s = Returns (Some (buf s)) (Suc l)"

text \<open>A registry holding one weight, and the same after \<^verbatim>\<open>d/white.bin\<close> has been loaded.\<close>

definition regBlack :: "byte list WeightRegistry" where
  "regBlack = \<lparr>pool = [\<lparr>filepath = ''black.bin'', weight = 1, refCount = 1\<rparr>], objs = [(1, [])]\<rparr>"

definition regBoth :: "nat \<Rightarrow> byte list WeightRegistry" where
  "regBoth n = \<lparr>pool = [\<lparr>filepath = ''black.bin'', weight = 1, refCount = 1\<rparr>,
                        \<lparr>filepath = ''d/white.bin'', weight = 2, refCount = n\<rparr>],
                objs = [(2, []), (1, [])]\<rparr>"

text \<open>Scenario S5: a RENJU-only header presented to a validator that asks for FREESTYLE.\<close>

definition renjuOnlyFile :: "byte list" where
  "renjuOnlyFile = [0x6a, 0xcc, 0xd8, 0xac,  0, 0, 0, 0,  4, 0, 0, 0,  0xff, 0xff, 0xff, 0x7f,
                    0, 0, 0, 0]"

definition renjuFs :: "string \<Rightarrow> bool \<Rightarrow> byte list option" where
  "renjuFs path binary = Some renjuOnlyFile"

text \<open>A file with an accepted header and a body that announces no head bucket.\<close>

definition noBucketFile :: "byte list" where
  "noBucketFile = [0x6a, 0xcc, 0xd8, 0xac,  0, 0, 0, 0,  1, 0, 0, 0,  0xff, 0xff, 0xff, 0x7f,
                   0, 0, 0, 0] @ replicate 32 0"

definition noBucketFs :: "string \<Rightarrow> bool \<Rightarrow> byte list option" where
  "noBucketFs path binary = Some noBucketFile"

definition exampleSizes :: mix8_sizes where
  "exampleSizes = \<lparr>sizeof_mapping = 8, sizeof_map_prelu_weight = 4,
     sizeof_feature_dwconv_weight = 4, sizeof_feature_dwconv_bias = 4,
     sizeof_padding_to_64bytes_0 = 4, sizeof_HeadBucket = 8, MaxNumBuckets = 2\<rparr>"

text \<open>A header that announces a description of \<open>0xffffffff\<close> bytes, and one byte after it.\<close>

definition overrunFile :: "byte list" where
  "overrunFile = [0x6a, 0xcc, 0xd8, 0xac,  0, 0, 0, 0,  1, 0, 0, 0,  0xff, 0xff, 0xff, 0x7f,
                  0xff, 0xff, 0xff, 0xff,  0x41]"


section \<open>The Mix8 accumulator (eval/mix8nnue.cpp)\<close>

subsection \<open>Constants, lanes and weights\<close>

text \<open>
  The feature dimensions are compile-time constants of \<^verbatim>\<open>mix8nnue.h\<close> (not among the
  sources); they are parameters of the model.
\<close>

record mix8_dims =
  FeatureDim :: nat
  FeatureDWConvDim :: nat

text \<open>
  \<^verbatim>\<open>Color\<close>, in the order of the enum: \<^verbatim>\<open>opponentMap\<close> is indexed by it, and \<^verbatim>\<open>update\<close>
  uses \<open>pieceColor + 1\<close> as the base-3 digit of a stone.
\<close>

datatype Color = BLACK | WHITE | WALL | EMPTY

fun color_code :: "Color \<Rightarrow> int" where
  "color_code BLACK = 0"
| "color_code WHITE = 1"
| "color_code WALL = 2"
| "color_code EMPTY = 3"

definition Power3 :: "nat \<Rightarrow> int" where
  "Power3 i = 3 ^ i"

fun DX :: "nat \<Rightarrow> int" where
  "DX dir = (if dir = 1 then 0 else 1)"

fun DY :: "nat \<Rightarrow> int" where
  "DY dir = (if dir = 0 then 0 else if dir = 3 then - 1 else 1)"

declare DX.simps [simp del] DY.simps [simp del]

text \<open>
  Modelled from the spec: the vector operations of \<^verbatim>\<open>simdops.h\<close> (not among the sources).
  A batch operation acts on every lane alike, so the model works one lane (channel) at a
  time: \<^verbatim>\<open>I16Op::add\<close>, \<^verbatim>\<open>sub\<close> and their 32-bit counterparts are \<open>+\<close> and \<open>-\<close> on
  words, \<^verbatim>\<open>max\<close> is the signed maximum, \<^verbatim>\<open>mulhrs\<close> the rounded high half of the 16-bit
  product, and \<^verbatim>\<open>Convert<int16_t, int32_t>\<close> the sign extension.
\<close>

definition max_s16 :: "16 word \<Rightarrow> 16 word \<Rightarrow> 16 word" where
  "max_s16 a b = (if sint a < sint b then b else a)"

definition max_s32 :: "32 word \<Rightarrow> 32 word \<Rightarrow> 32 word" where
  "max_s32 a b = (if sint a < sint b then b else a)"

definition mulhrs :: "16 word \<Rightarrow> 16 word \<Rightarrow> 16 word" where
  "mulhrs a b = word_of_int ((sint a * sint b + 16384) div 32768)"

definition widen :: "16 word \<Rightarrow> 32 word" where
  "widen a = word_of_int (sint a)"

definition prelu :: "16 word \<Rightarrow> 16 word \<Rightarrow> 16 word" where
  "prelu feature preluW = max_s16 feature (mulhrs feature preluW)"

text \<open>The part of \<^verbatim>\<open>Mix8Weight\<close> the accumulator reads, as arrays of lanes.\<close>

record Mix8Weight =
  mapping :: "32 word \<Rightarrow> nat \<Rightarrow> 16 word"
  map_prelu_weight :: "nat \<Rightarrow> 16 word"
  feature_dwconv_weight :: "nat \<Rightarrow> nat \<Rightarrow> 16 word"
  feature_dwconv_bias :: "nat \<Rightarrow> 16 word"

text \<open>
  The accumulator.  Its arrays are functions from the index; an operation changes them at
  the indices the code writes and nowhere else.  \<^verbatim>\<open>mapping\<close> is read at any shape code: the
  bound \<^verbatim>\<open>ShapeNum\<close> is only asserted (a debug check) in the code.
\<close>

record ValueSumType =
  vglobal :: "nat \<Rightarrow> 32 word"
  vgroup :: "nat \<Rightarrow> nat \<Rightarrow> nat \<Rightarrow> 32 word"

record Mix8Accumulator =
  boardSize :: int
  indexTable :: "int \<Rightarrow> nat \<Rightarrow> 32 word"
  mapSum :: "int \<Rightarrow> nat \<Rightarrow> 16 word"
  mapAfterDWConv :: "int \<Rightarrow> nat \<Rightarrow> 16 word"
  valueSum :: ValueSumType

definition fullBoardSize :: "int \<Rightarrow> int" where
  "fullBoardSize bs = bs + 2"

text \<open>\<^verbatim>\<open>groupIndex\<close>, as the constructor fills it.\<close>

definition groupIndex :: "int \<Rightarrow> int \<Rightarrow> nat" where
  "groupIndex bs i =
     (let size1 = bs div 3 + (if bs mod 3 = 2 then 1 else 0);
          size2 = (bs div 3) * 2 + (if bs mod 3 > 0 then 1 else 0)
      in if 0 \<le> i \<and> i < bs then (if i \<ge> size1 then 1 else 0) + (if i \<ge> size2 then 1 else 0)
         else 0)"

text \<open>The conversions to \<^verbatim>\<open>int8_t\<close> and \<^verbatim>\<open>int16_t\<close> of the fields of \<^verbatim>\<open>OnePointChange\<close>.\<close>

definition int8 :: "int \<Rightarrow> int" where
  "int8 v = sint (word_of_int v :: 8 word)"

definition int16 :: "int \<Rightarrow> int" where
  "int16 v = sint (word_of_int v :: 16 word)"

subsection \<open>initIndexTable and clear\<close>

definition getIndex_set :: "int \<Rightarrow> int \<Rightarrow> int \<Rightarrow> nat \<Rightarrow> int \<Rightarrow> (int \<Rightarrow> nat \<Rightarrow> 32 word)
    \<Rightarrow> (int \<Rightarrow> nat \<Rightarrow> 32 word)" where
  "getIndex_set bs x y dir c it = it(x + y * bs := (it (x + y * bs))(dir := word_of_int c))"

definition sumPower3 :: "nat list \<Rightarrow> int" where
  "sumPower3 js = foldl (\<lambda>c j. c + Power3 j) 0 js"

text \<open>The three loop nests of \<^verbatim>\<open>initIndexTable\<close>, one step of the innermost body each.\<close>

definition initStepA :: "int \<Rightarrow> (int \<Rightarrow> nat \<Rightarrow> 32 word) \<Rightarrow> int \<times> int \<Rightarrow> (int \<Rightarrow> nat \<Rightarrow> 32 word)" where
  "initStepA bs it = (\<lambda>(thick, i).
     (let c = sumPower3 (map (\<lambda>j. nat (11 - j)) [0..thick - 1]) in
      getIndex_set bs i (6 - 1 - thick) 3 c
       (getIndex_set bs (bs - 6 + thick) i 3 c
        (getIndex_set bs i (bs - 6 + thick) 2 c
         (getIndex_set bs (bs - 6 + thick) i 2 c
          (getIndex_set bs i (bs - 6 + thick) 1 c
           (getIndex_set bs (bs - 6 + thick) i 0 c it)))))))"

definition initStepB :: "int \<Rightarrow> (int \<Rightarrow> nat \<Rightarrow> 32 word) \<Rightarrow> int \<times> int \<Rightarrow> (int \<Rightarrow> nat \<Rightarrow> 32 word)" where
  "initStepB bs it = (\<lambda>(thick, i).
     (let c = 2 * Power3 11 + sumPower3 (map nat [0..thick - 2]) in
      getIndex_set bs i (bs - 6 + thick) 3 c
       (getIndex_set bs (6 - 1 - thick) i 3 c
        (getIndex_set bs i (6 - 1 - thick) 2 c
         (getIndex_set bs (6 - 1 - thick) i 2 c
          (getIndex_set bs i (6 - 1 - thick) 1 c
           (getIndex_set bs (6 - 1 - thick) i 0 c it)))))))"

definition initStepC :: "int \<Rightarrow> (int \<Rightarrow> nat \<Rightarrow> 32 word) \<Rightarrow> int \<times> int \<Rightarrow> (int \<Rightarrow> nat \<Rightarrow> 32 word)" where
  "initStepC bs it = (\<lambda>(a, b).
     (let c = 3 * Power3 11 + sumPower3 (map (\<lambda>i. nat (10 - i)) [0..a - 2])
                + sumPower3 (map nat [0..b - 2]) in
      getIndex_set bs (bs - 6 + a) (bs - 6 + b) 3 c
       (getIndex_set bs (5 - b) (5 - a) 3 c
        (getIndex_set bs (5 - b) (bs - 6 + a) 2 c
         (getIndex_set bs (bs - 6 + a) (5 - b) 2 c it)))))"

definition initIndexTable :: "int \<Rightarrow> (int \<Rightarrow> nat \<Rightarrow> 32 word) \<Rightarrow> (int \<Rightarrow> nat \<Rightarrow> 32 word)" where
  "initIndexTable bs it0 =
     (let zeroed = (\<lambda>i. if 0 \<le> i \<and> i < bs * bs then (\<lambda>dir. if dir < 4 then 0 else it0 i dir)
                         else it0 i);
          itA = foldl (initStepA bs) zeroed (concat (map (\<lambda>thick. map (Pair thick) [0..bs - 1]) [1..5]));
          itB = foldl (initStepB bs) itA (concat (map (\<lambda>thick. map (Pair thick) [0..bs - 1]) [1..5]))
      in foldl (initStepC bs) itB (concat (map (\<lambda>a. map (Pair a) [1..5]) [1..5])))"

text \<open>\<open>addToAccumulator\<close>: add a widened lane to the global sum and to one group sum.\<close>

definition addToSums :: "nat \<Rightarrow> nat \<Rightarrow> nat \<Rightarrow> 32 word \<Rightarrow> ValueSumType \<Rightarrow> ValueSumType" where
  "addToSums i j ch v vs =
     vs\<lparr>vglobal := (vglobal vs)(ch := vglobal vs ch + v),
        vgroup := (vgroup vs)(i := (vgroup vs i)(j := (vgroup vs i j)(ch := vgroup vs i j ch + v)))\<rparr>"

text \<open>The first pass of \<^verbatim>\<open>clear\<close>, for the cell \<open>(x, y)\<close>, and its parts.\<close>

definition clearConvCell :: "mix8_dims \<Rightarrow> Mix8Weight \<Rightarrow> int \<Rightarrow> int \<Rightarrow> int \<Rightarrow> (nat \<Rightarrow> 16 word)
    \<Rightarrow> (int \<Rightarrow> nat \<Rightarrow> 16 word) \<Rightarrow> int \<times> int \<Rightarrow> (int \<Rightarrow> nat \<Rightarrow> 16 word)" where
  "clearConvCell D w bs x y feature conv = (\<lambda>(dy, dx).
     (let outerIdx = (x + dx) + (y + dy) * fullBoardSize bs
      in conv(outerIdx := (\<lambda>ch. if ch < FeatureDWConvDim D
            then conv outerIdx ch + mulhrs (feature ch) (feature_dwconv_weight w (nat (8 - dy * 3 - dx)) ch)
            else conv outerIdx ch))))"

definition stencil :: "(int \<times> int) list" where
  "stencil = concat (map (\<lambda>dy. map (Pair dy) [0..2]) [0..2])"

definition clearCell :: "mix8_dims \<Rightarrow> Mix8Weight \<Rightarrow> Mix8Accumulator \<Rightarrow> int \<times> int \<Rightarrow> Mix8Accumulator" where
  "clearCell D w a = (\<lambda>(y, x).
     (let bs = boardSize a;
          innerIdx = x + y * bs;
          sum4 = (\<lambda>ch. if ch < FeatureDim D
                   then foldl (\<lambda>s dir. s + mapping w (indexTable a innerIdx dir) ch) 0 [0..<4]
                   else mapSum a innerIdx ch);
          feature = (\<lambda>ch. prelu (sum4 ch) (map_prelu_weight w ch));
          conv = foldl (clearConvCell D w bs x y feature) (mapAfterDWConv a) stencil;
          vs = foldl (\<lambda>vs ch. addToSums (groupIndex bs y) (groupIndex bs x) ch (widen (feature ch)) vs)
                 (valueSum a) [FeatureDWConvDim D..<FeatureDim D]
      in a\<lparr>mapSum := (mapSum a)(innerIdx := sum4), mapAfterDWConv := conv, valueSum := vs\<rparr>))"

text \<open>The second pass of \<^verbatim>\<open>clear\<close>: add the relu of the convolved map at \<open>(x, y)\<close>.\<close>

definition clearValueCell :: "mix8_dims \<Rightarrow> Mix8Accumulator \<Rightarrow> int \<times> int \<Rightarrow> Mix8Accumulator" where
  "clearValueCell D a = (\<lambda>(y, x).
     (let bs = boardSize a;
          outerIdx = (x + 1) + (y + 1) * fullBoardSize bs
      in a\<lparr>valueSum := foldl (\<lambda>vs ch. addToSums (groupIndex bs y) (groupIndex bs x) ch
                                   (max_s32 (widen (mapAfterDWConv a outerIdx ch)) 0) vs)
                           (valueSum a) [0..<FeatureDWConvDim D]\<rparr>))"

definition boardCells :: "int \<Rightarrow> (int \<times> int) list" where
  "boardCells bs = concat (map (\<lambda>y. map (Pair y) [0..bs - 1]) [0..bs - 1])"

definition Mix8Accumulator_clear :: "mix8_dims \<Rightarrow> Mix8Weight \<Rightarrow> Mix8Accumulator \<Rightarrow> Mix8Accumulator" where
  "Mix8Accumulator_clear D w a =
     (let bs = boardSize a;
          a1 = a\<lparr>indexTable := initIndexTable bs (indexTable a),
                 mapAfterDWConv := (\<lambda>i. if 0 \<le> i \<and> i < fullBoardSize bs * fullBoardSize bs
                     then (\<lambda>ch. if ch < FeatureDWConvDim D then feature_dwconv_bias w ch
                                 else mapAfterDWConv a i ch)
                     else mapAfterDWConv a i),
                 valueSum := \<lparr>vglobal = (\<lambda>ch. if ch < FeatureDim D then 0 else vglobal (valueSum a) ch),
                     vgroup = (\<lambda>i j. if i < 3 \<and> j < 3
                        then (\<lambda>ch. if ch < FeatureDim D then 0 else vgroup (valueSum a) i j ch)
                        else vgroup (valueSum a) i j)\<rparr>\<rparr>;
          a2 = foldl (clearCell D w) a1 (boardCells bs)
      in foldl (clearValueCell D) a2 (boardCells bs))"

subsection \<open>update\<close>

text \<open>
  The test of \<^verbatim>\<open>update\<close> that skips a cell off the board, on 32-bit \<^verbatim>\<open>int\<close>:
  \<^verbatim>\<open>(xi | (boardSizeSub1 - xi) | yi | (boardSizeSub1 - yi)) < 0\<close>.
\<close>

definition offBoard :: "int \<Rightarrow> int \<Rightarrow> int \<Rightarrow> bool" where
  "offBoard bs xi yi =
     (sint ((word_of_int xi :: 32 word) OR word_of_int (bs - 1 - xi)
              OR word_of_int yi OR word_of_int (bs - 1 - yi)) < 0)"

record OnePointChange =
  c_x :: int
  c_y :: int
  c_dir :: nat
  c_innerIdx :: int
  oldShape :: "32 word"
  newShape :: "32 word"

datatype UpdateType = MOVE | UNDO

definition dPower3 :: "UpdateType \<Rightarrow> Color \<Rightarrow> int" where
  "dPower3 UT pieceColor = (if UT = MOVE then color_code pieceColor + 1 else - 1 - color_code pieceColor)"

text \<open>The pairs \<open>(dir, dist)\<close> in the order of the two loops.\<close>

definition dirDist :: "(nat \<times> int) list" where
  "dirDist = concat (map (\<lambda>dir. map (Pair dir) [- 5..5]) [0..<4])"

text \<open>One round of the inner loop of ``update shape table and record changes''.\<close>

definition shapeStep :: "int \<Rightarrow> int \<Rightarrow> int \<Rightarrow> int
    \<Rightarrow> (int \<Rightarrow> nat \<Rightarrow> 32 word) \<times> OnePointChange list \<Rightarrow> nat \<times> int
    \<Rightarrow> (int \<Rightarrow> nat \<Rightarrow> 32 word) \<times> OnePointChange list" where
  "shapeStep bs dP x y = (\<lambda>(it, changeTable) (dir, dist).
     (let xi = x - dist * DX dir;
          yi = y - dist * DY dir
      in if offBoard bs xi yi then (it, changeTable)
         else
           (let innerIdx = int16 (bs * yi + xi);
                old = it innerIdx dir;
                new = old + word_of_int (dP * Power3 (nat (dist + 5)))
            in (it(innerIdx := (it innerIdx)(dir := new)),
                changeTable @ [\<lparr>c_x = int8 xi, c_y = int8 yi, c_dir = dir, c_innerIdx = innerIdx,
                                 oldShape = old, newShape = new\<rparr>]))))"

definition shapePass :: "int \<Rightarrow> int \<Rightarrow> int \<Rightarrow> int \<Rightarrow> (int \<Rightarrow> nat \<Rightarrow> 32 word)
    \<Rightarrow> (int \<Rightarrow> nat \<Rightarrow> 32 word) \<times> OnePointChange list" where
  "shapePass bs dP x y it = foldl (shapeStep bs dP x y) (it, []) dirDist"

text \<open>``Update mapAfterDWConv'' for one change and one stencil offset.\<close>

definition convStep :: "mix8_dims \<Rightarrow> Mix8Weight \<Rightarrow> int \<Rightarrow> OnePointChange
    \<Rightarrow> (nat \<Rightarrow> 16 word) \<Rightarrow> (nat \<Rightarrow> 16 word)
    \<Rightarrow> (int \<Rightarrow> nat \<Rightarrow> 16 word) \<Rightarrow> int \<times> int \<Rightarrow> (int \<Rightarrow> nat \<Rightarrow> 16 word)" where
  "convStep D w bs c oldFeats newFeats conv = (\<lambda>(dy, dx).
     (let idx = dx + (c_y c * fullBoardSize bs + c_x c + dy * fullBoardSize bs)
      in conv(idx := (\<lambda>ch. if ch < FeatureDWConvDim D
            then conv idx ch
                   - mulhrs (oldFeats ch) (feature_dwconv_weight w (nat (8 - dy * 3 - dx)) ch)
                   + mulhrs (newFeats ch) (feature_dwconv_weight w (nat (8 - dy * 3 - dx)) ch)
            else conv idx ch))))"

text \<open>``Update valueSum'' for one change (MOVE only): the channels that skip the convolution.\<close>

definition directStep :: "nat \<Rightarrow> nat \<Rightarrow> (nat \<Rightarrow> 16 word) \<Rightarrow> (nat \<Rightarrow> 16 word) \<Rightarrow> ValueSumType \<Rightarrow> nat
    \<Rightarrow> ValueSumType" where
  "directStep i j oldFeats newFeats vs ch =
     vs\<lparr>vglobal := (vglobal vs)(ch := vglobal vs ch - widen (oldFeats ch) + widen (newFeats ch)),
        vgroup := (vgroup vs)(i := (vgroup vs i)(j := (vgroup vs i j)
                    (ch := vgroup vs i j ch - widen (oldFeats ch) + widen (newFeats ch))))\<rparr>"

text \<open>One round of ``incremental update feature sum''.\<close>

definition featureStep :: "mix8_dims \<Rightarrow> UpdateType \<Rightarrow> Mix8Weight \<Rightarrow> int
    \<Rightarrow> (int \<Rightarrow> nat \<Rightarrow> 16 word) \<times> (int \<Rightarrow> nat \<Rightarrow> 16 word) \<times> ValueSumType \<Rightarrow> OnePointChange
    \<Rightarrow> (int \<Rightarrow> nat \<Rightarrow> 16 word) \<times> (int \<Rightarrow> nat \<Rightarrow> 16 word) \<times> ValueSumType" where
  "featureStep D UT w bs = (\<lambda>(ms, conv, vs) c.
     (let old = ms (c_innerIdx c);
          new = (\<lambda>ch. if ch < FeatureDim D
                   then old ch - mapping w (oldShape c) ch + mapping w (newShape c) ch
                   else old ch);
          oldFeats = (\<lambda>ch. prelu (old ch) (map_prelu_weight w ch));
          newFeats = (\<lambda>ch. prelu (new ch) (map_prelu_weight w ch));
          conv' = foldl (convStep D w bs c oldFeats newFeats) conv stencil;
          vs' = (if UT = MOVE
                 then foldl (directStep (groupIndex bs (c_y c)) (groupIndex bs (c_x c)) oldFeats newFeats)
                        vs [FeatureDWConvDim D..<FeatureDim D]
                 else vs)
      in (ms(c_innerIdx c := new), conv', vs')))"

text \<open>
  The rectangle of outer cells whose value contribution the MOVE path takes out before the
  changes and puts back after them, in loop order, as pairs \<open>(xi, yi)\<close>.
\<close>

definition dirtyRect :: "int \<Rightarrow> int \<Rightarrow> int \<Rightarrow> (int \<times> int) list" where
  "dirtyRect bs x y =
     (let x0 = max (x - 6 + 1) 1;
          y0 = max (y - 6 + 1) 1;
          x1 = min (x + 6 + 1) bs;
          y1 = min (y + 6 + 1) bs
      in concat (map (\<lambda>yi. map (\<lambda>xi. (xi, yi)) [x0..x1]) [y0..y1]))"

text \<open>``Subtract value feature sum'' and ``add value feature sum'' for one outer cell.\<close>

definition rectStep :: "mix8_dims \<Rightarrow> bool \<Rightarrow> int \<Rightarrow> (int \<Rightarrow> nat \<Rightarrow> 16 word) \<Rightarrow> ValueSumType
    \<Rightarrow> int \<times> int \<Rightarrow> ValueSumType" where
  "rectStep D adding bs conv vs = (\<lambda>(xi, yi).
     (let outerIdx = xi + yi * fullBoardSize bs;
          i = groupIndex bs (yi - 1);
          j = groupIndex bs (xi - 1)
      in foldl (\<lambda>vs ch.
            (let v = widen (max_s16 (conv outerIdx ch) 0)
             in addToSums i j ch (if adding then v else - v) vs))
          vs [0..<FeatureDWConvDim D]))"

definition featurePass :: "mix8_dims \<Rightarrow> UpdateType \<Rightarrow> Mix8Weight \<Rightarrow> int \<Rightarrow> OnePointChange list
    \<Rightarrow> (int \<Rightarrow> nat \<Rightarrow> 16 word) \<times> (int \<Rightarrow> nat \<Rightarrow> 16 word) \<times> ValueSumType
    \<Rightarrow> (int \<Rightarrow> nat \<Rightarrow> 16 word) \<times> (int \<Rightarrow> nat \<Rightarrow> 16 word) \<times> ValueSumType" where
  "featurePass D UT w bs changeTable s = foldl (featureStep D UT w bs) s changeTable"

text \<open>\<^verbatim>\<open>update<MOVE>\<close>; the backup pointer is not used on this path.\<close>

definition update_MOVE :: "mix8_dims \<Rightarrow> Mix8Weight \<Rightarrow> Color \<Rightarrow> int \<Rightarrow> int \<Rightarrow> Mix8Accumulator
    \<Rightarrow> Mix8Accumulator" where
  "update_MOVE D w pieceColor x y a =
     (let bs = boardSize a;
          vs0 = foldl (rectStep D False bs (mapAfterDWConv a)) (valueSum a) (dirtyRect bs x y);
          (it, changeTable) = shapePass bs (dPower3 MOVE pieceColor) x y (indexTable a);
          (ms, conv, vs1) = featurePass D MOVE w bs changeTable (mapSum a, mapAfterDWConv a, vs0);
          vs2 = foldl (rectStep D True bs conv) vs1 (dirtyRect bs x y)
      in a\<lparr>indexTable := it, mapSum := ms, mapAfterDWConv := conv, valueSum := vs2\<rparr>)"

text \<open>\<^verbatim>\<open>update<UNDO>\<close>; \<open>backup\<close> is the snapshot \<^verbatim>\<open>valueSumBoardBackup\<close> points to.\<close>

definition update_UNDO :: "mix8_dims \<Rightarrow> Mix8Weight \<Rightarrow> Color \<Rightarrow> int \<Rightarrow> int \<Rightarrow> ValueSumType
    \<Rightarrow> Mix8Accumulator \<Rightarrow> Mix8Accumulator" where
  "update_UNDO D w pieceColor x y backup a =
     (let bs = boardSize a;
          (it, changeTable) = shapePass bs (dPower3 UNDO pieceColor) x y (indexTable a);
          (ms, conv, vs) = featurePass D UNDO w bs changeTable (mapSum a, mapAfterDWConv a, valueSum a)
      in a\<lparr>indexTable := it, mapSum := ms, mapAfterDWConv := conv, valueSum := backup\<rparr>)"

section \<open>The Mix8 evaluator: the deferred move cache (eval/mix8nnue.cpp)\<close>

record MoveCache =
  oldColor :: Color
  newColor :: Color
  mc_x :: "8 word"
  mc_y :: "8 word"

text \<open>
  Modelled from the spec: \<^verbatim>\<open>isContraryMove\<close> of \<^verbatim>\<open>mix8nnue.h\<close> (not among the sources): a
  pair \<open>(A, B)\<close> is contrary to \<open>(A', B')\<close> at the same \<open>(x, y)\<close> iff \<open>A = B'\<close> and \<open>B = A'\<close>.
\<close>

definition isContraryMove :: "MoveCache \<Rightarrow> MoveCache \<Rightarrow> bool" where
  "isContraryMove a b =
     (mc_x a = mc_x b \<and> mc_y a = mc_y b \<and> oldColor a = newColor b \<and> newColor a = oldColor b)"

text \<open>
  The evaluator: the arrays indexed by side are functions of the side.  The history of a
  side is its stack of \<^verbatim>\<open>valueSum\<close> snapshots, the top at the end of the list.
\<close>

record Mix8Evaluator =
  moveCache :: "Color \<Rightarrow> MoveCache list"
  accumulator :: "Color \<Rightarrow> Mix8Accumulator"
  sideWeight :: "Color \<Rightarrow> Mix8Weight"
  valueSumBoardHistory :: "Color \<Rightarrow> ValueSumType list"

text \<open>The body of the loop of \<^verbatim>\<open>addCache\<close> over the two sides.\<close>

definition addCacheSide :: "MoveCache \<Rightarrow> MoveCache list \<Rightarrow> MoveCache list" where
  "addCacheSide newCache mc =
     (if mc = [] \<or> \<not> isContraryMove newCache (last mc) then mc @ [newCache] else butlast mc)"

definition addCache :: "Color \<Rightarrow> int \<Rightarrow> int \<Rightarrow> bool \<Rightarrow> Mix8Evaluator \<Rightarrow> Mix8Evaluator" where
  "addCache side x y isUndo e =
     (let newCache = \<lparr>oldColor = (if isUndo then side else EMPTY),
                      newColor = (if isUndo then EMPTY else side),
                      mc_x = word_of_int x, mc_y = word_of_int y\<rparr>
      in foldl (\<lambda>e c. e\<lparr>moveCache := (moveCache e)(c := addCacheSide newCache (moveCache e c))\<rparr>)
           e [BLACK, WHITE])"

fun opponentMap :: "Color \<Rightarrow> Color" where
  "opponentMap BLACK = WHITE"
| "opponentMap WHITE = BLACK"
| "opponentMap WALL = WALL"
| "opponentMap EMPTY = EMPTY"

text \<open>
  The two branches of the loop of \<^verbatim>\<open>clearCache\<close>, on the accumulator and the history of one
  side: a move pushes the snapshot and updates, an undo updates with the top snapshot and
  pops it.  An undo on an empty history has no defined behaviour (\<open>None\<close>).
\<close>

definition moveStep :: "mix8_dims \<Rightarrow> Mix8Weight \<Rightarrow> Color \<Rightarrow> int \<Rightarrow> int
    \<Rightarrow> Mix8Accumulator \<times> ValueSumType list \<Rightarrow> Mix8Accumulator \<times> ValueSumType list" where
  "moveStep D w color x y = (\<lambda>(a, history).
     (update_MOVE D w color x y a, history @ [valueSum a]))"

definition undoStep :: "mix8_dims \<Rightarrow> Mix8Weight \<Rightarrow> Color \<Rightarrow> int \<Rightarrow> int
    \<Rightarrow> Mix8Accumulator \<times> ValueSumType list \<Rightarrow> (Mix8Accumulator \<times> ValueSumType list) option" where
  "undoStep D w color x y = (\<lambda>(a, history).
     (if history = [] then None
      else Some (update_UNDO D w color x y (last history) a, butlast history)))"

text \<open>The calls of \<^verbatim>\<open>update\<close> a drain makes, for the record.\<close>

datatype update_call = UpdateCall UpdateType Color int int

definition drainStep :: "mix8_dims \<Rightarrow> Mix8Weight \<Rightarrow> Color
    \<Rightarrow> (update_call list \<times> Mix8Accumulator \<times> ValueSumType list) option \<Rightarrow> MoveCache
    \<Rightarrow> (update_call list \<times> Mix8Accumulator \<times> ValueSumType list) option" where
  "drainStep D w side st mc0 =
     (case st of None \<Rightarrow> None
      | Some (calls, ah) \<Rightarrow>
         (let mc = (if side = WHITE
                    then mc0\<lparr>oldColor := opponentMap (oldColor mc0), newColor := opponentMap (newColor mc0)\<rparr>
                    else mc0)
          in if oldColor mc = EMPTY
             then Some (calls @ [UpdateCall MOVE (newColor mc) (sint (mc_x mc)) (sint (mc_y mc))],
                        moveStep D w (newColor mc) (sint (mc_x mc)) (sint (mc_y mc)) ah)
             else map_option (Pair (calls @ [UpdateCall UNDO (oldColor mc) (sint (mc_x mc)) (sint (mc_y mc))]))
                    (undoStep D w (oldColor mc) (sint (mc_x mc)) (sint (mc_y mc)) ah)))"

text \<open>\<^verbatim>\<open>clearCache\<close>: the calls made and the evaluator after the drain.\<close>

definition clearCache :: "mix8_dims \<Rightarrow> Color \<Rightarrow> Mix8Evaluator \<Rightarrow> (update_call list \<times> Mix8Evaluator) option" where
  "clearCache D side e =
     map_option (\<lambda>(calls, a, history).
         (calls, e\<lparr>moveCache := (moveCache e)(side := []),
                   accumulator := (accumulator e)(side := a),
                   valueSumBoardHistory := (valueSumBoardHistory e)(side := history)\<rparr>))
       (foldl (drainStep D (sideWeight e side) side)
          (Some ([], accumulator e side, valueSumBoardHistory e side)) (moveCache e side))"

text \<open>
  A cache in which no entry is contrary to its successor; \<^verbatim>\<open>addCache\<close> keeps the caches so
  from \<^verbatim>\<open>initEmptyBoard\<close> on.
\<close>

fun reduced :: "MoveCache list \<Rightarrow> bool" where
  "reduced [] = True"
| "reduced [a] = True"
| "reduced (a # b # mc) = (\<not> isContraryMove b a \<and> reduced (b # mc))"

definition initEmptyBoard :: "mix8_dims \<Rightarrow> Mix8Evaluator \<Rightarrow> Mix8Evaluator" where
  "initEmptyBoard D e =
     e\<lparr>moveCache := (moveCache e)(BLACK := [], WHITE := []),
       accumulator := (accumulator e)
          (BLACK := Mix8Accumulator_clear D (sideWeight e BLACK) (accumulator e BLACK),
           WHITE := Mix8Accumulator_clear D (sideWeight e WHITE) (accumulator e WHITE))\<rparr>"

subsection \<open>A concrete evaluator\<close>

definition exampleDims :: mix8_dims where
  "exampleDims = \<lparr>FeatureDim = 2, FeatureDWConvDim = 1\<rparr>"

definition exampleWeight :: Mix8Weight where
  "exampleWeight = \<lparr>mapping = (\<lambda>shape ch. ucast shape), map_prelu_weight = (\<lambda>ch. 16384),
     feature_dwconv_weight = (\<lambda>k ch. 8192), feature_dwconv_bias = (\<lambda>ch. 3)\<rparr>"

definition exampleAccumulator :: Mix8Accumulator where
  "exampleAccumulator = \<lparr>boardSize = 15, indexTable = (\<lambda>i dir. 0), mapSum = (\<lambda>i ch. 0),
     mapAfterDWConv = (\<lambda>i ch. 0),
     valueSum = \<lparr>vglobal = (\<lambda>ch. 0), vgroup = (\<lambda>i j ch. 0)\<rparr>\<rparr>"

definition exampleEvaluator :: Mix8Evaluator where
  "exampleEvaluator = \<lparr>moveCache = (\<lambda>side. []), accumulator = (\<lambda>side. exampleAccumulator),
     sideWeight = (\<lambda>side. exampleWeight), valueSumBoardHistory = (\<lambda>side. [])\<rparr>"

section \<open>Notions used to state the properties of the accumulator\<close>

subsection \<open>The shape pass of update\<close>

text \<open>A cell \<open>(xi, yi)\<close> of the board, in board coordinates.\<close>

definition onBoard :: "int \<Rightarrow> int \<Rightarrow> int \<Rightarrow> bool" where
  "onBoard bs xi yi = (0 \<le> xi \<and> xi < bs \<and> 0 \<le> yi \<and> yi < bs)"

text \<open>
  The pairs \<open>(dir, dist)\<close> that the loop over the lines through \<open>(x, y)\<close> does not skip, the
  entry of \<^verbatim>\<open>indexTable\<close> such a pair addresses, the amount the loop adds to it, and the
  \<^verbatim>\<open>OnePointChange\<close> it records when the table it started from is \<open>it\<close>.
\<close>

definition hits :: "int \<Rightarrow> int \<Rightarrow> int \<Rightarrow> nat \<times> int \<Rightarrow> bool" where
  "hits bs x y = (\<lambda>(dir, dist). \<not> offBoard bs (x - dist * DX dir) (y - dist * DY dir))"

definition keyOf :: "int \<Rightarrow> int \<Rightarrow> int \<Rightarrow> nat \<times> int \<Rightarrow> int \<times> nat" where
  "keyOf bs x y = (\<lambda>(dir, dist). (int16 (bs * (y - dist * DY dir) + (x - dist * DX dir)), dir))"

definition shapeDelta :: "int \<Rightarrow> nat \<times> int \<Rightarrow> 32 word" where
  "shapeDelta dP = (\<lambda>(dir, dist). word_of_int (dP * Power3 (nat (dist + 5))))"

definition mkChange :: "int \<Rightarrow> int \<Rightarrow> int \<Rightarrow> int \<Rightarrow> (int \<Rightarrow> nat \<Rightarrow> 32 word) \<Rightarrow> nat \<times> int \<Rightarrow> OnePointChange" where
  "mkChange bs dP x y it = (\<lambda>(dir, dist).
     \<lparr>c_x = int8 (x - dist * DX dir), c_y = int8 (y - dist * DY dir), c_dir = dir,
      c_innerIdx = int16 (bs * (y - dist * DY dir) + (x - dist * DX dir)),
      oldShape = it (int16 (bs * (y - dist * DY dir) + (x - dist * DX dir))) dir,
      newShape = it (int16 (bs * (y - dist * DY dir) + (x - dist * DX dir))) dir
                   + shapeDelta dP (dir, dist)\<rparr>)"

text \<open>All that the pairs of a list add to the entry \<open>(i, d)\<close>.\<close>

definition shapeSum :: "int \<Rightarrow> int \<Rightarrow> int \<Rightarrow> int \<Rightarrow> (nat \<times> int) list \<Rightarrow> int \<Rightarrow> nat \<Rightarrow> 32 word" where
  "shapeSum bs dP x y ps i d =
     sum_list (map (shapeDelta dP) (filter (\<lambda>p. hits bs x y p \<and> keyOf bs x y p = (i, d)) ps))"

text \<open>A recorded change read backwards: what the undo of the same stone records.\<close>

definition swapChange :: "OnePointChange \<Rightarrow> OnePointChange" where
  "swapChange c = c\<lparr>oldShape := newShape c, newShape := oldShape c\<rparr>"

subsection \<open>The rectangle of the value sum\<close>

text \<open>
  The rectangle in the words of the specification: \<open>[x - 5, x + 5] \<times> [y - 5, y + 5]\<close>, cut to
  the board with its halo, that is to the coordinates from \<open>0\<close> to \<open>fullBoardSize - 1\<close>.
\<close>

definition specRect :: "int \<Rightarrow> int \<Rightarrow> int \<Rightarrow> (int \<times> int) set" where
  "specRect bs x y =
     {(xi, yi). x - 5 \<le> xi \<and> xi \<le> x + 5 \<and> y - 5 \<le> yi \<and> yi \<le> y + 5
                \<and> 0 \<le> xi \<and> xi < fullBoardSize bs \<and> 0 \<le> yi \<and> yi < fullBoardSize bs}"

subsection \<open>The feature pass of update\<close>

text \<open>What one recorded change adds to channel \<open>ch\<close> of its \<^verbatim>\<open>mapSum\<close> cell.\<close>

definition mapDelta :: "mix8_dims \<Rightarrow> Mix8Weight \<Rightarrow> OnePointChange \<Rightarrow> nat \<Rightarrow> 16 word" where
  "mapDelta D w c ch =
     (if ch < FeatureDim D then mapping w (newShape c) ch - mapping w (oldShape c) ch else 0)"

text \<open>
  The outer cell that the stencil offset \<open>(dy, dx)\<close> of the board cell \<open>(cx, cy)\<close> writes, the
  product such an offset contributes for the activations \<open>f\<close>, the sum of the products that
  the offsets of a list put on one outer cell, and the sum over all board cells of what
  their stencils put on one outer cell for the feature sums \<open>ms\<close>.
\<close>

definition outerOf :: "int \<Rightarrow> int \<Rightarrow> int \<Rightarrow> int \<times> int \<Rightarrow> int" where
  "outerOf bs cx cy = (\<lambda>(dy, dx). dx + (cy * fullBoardSize bs + cx + dy * fullBoardSize bs))"

definition tap :: "mix8_dims \<Rightarrow> Mix8Weight \<Rightarrow> (nat \<Rightarrow> 16 word) \<Rightarrow> int \<times> int \<Rightarrow> nat \<Rightarrow> 16 word" where
  "tap D w f = (\<lambda>(dy, dx) ch.
     if ch < FeatureDWConvDim D
     then mulhrs (f ch) (feature_dwconv_weight w (nat (8 - dy * 3 - dx)) ch) else 0)"

definition scatter :: "mix8_dims \<Rightarrow> Mix8Weight \<Rightarrow> int \<Rightarrow> int \<Rightarrow> int \<Rightarrow> (nat \<Rightarrow> 16 word)
    \<Rightarrow> (int \<times> int) list \<Rightarrow> int \<Rightarrow> nat \<Rightarrow> 16 word" where
  "scatter D w bs cx cy f qs outer ch =
     sum_list (map (\<lambda>q. tap D w f q ch) (filter (\<lambda>q. outerOf bs cx cy q = outer) qs))"

definition convOf :: "mix8_dims \<Rightarrow> Mix8Weight \<Rightarrow> int \<Rightarrow> (int \<Rightarrow> nat \<Rightarrow> 16 word) \<Rightarrow> int \<Rightarrow> nat \<Rightarrow> 16 word" where
  "convOf D w bs ms outer ch =
     sum_list (map (\<lambda>(cy, cx). scatter D w bs cx cy
                      (\<lambda>ch. prelu (ms (bs * cy + cx) ch) (map_prelu_weight w ch)) stencil outer ch)
                 (boardCells bs))"

subsection \<open>Sequences of moves and undos\<close>

text \<open>
  A sequence of stones \<open>(colour, x, y)\<close> placed in order, and a sequence of stones taken back
  in the order given, each on the accumulator and the snapshot history of one side; the
  undo of a stone reads the snapshot on top of the history, as \<^verbatim>\<open>clearCache\<close> arranges.
\<close>

definition moveAll :: "mix8_dims \<Rightarrow> Mix8Weight \<Rightarrow> (Color \<times> int \<times> int) list
    \<Rightarrow> Mix8Accumulator \<times> ValueSumType list \<Rightarrow> Mix8Accumulator \<times> ValueSumType list" where
  "moveAll D w moves s = foldl (\<lambda>s (c, x, y). moveStep D w c x y s) s moves"

definition undoAll :: "mix8_dims \<Rightarrow> Mix8Weight \<Rightarrow> (Color \<times> int \<times> int) list
    \<Rightarrow> Mix8Accumulator \<times> ValueSumType list \<Rightarrow> (Mix8Accumulator \<times> ValueSumType list) option" where
  "undoAll D w moves s =
     foldl (\<lambda>s (c, x, y). case s of None \<Rightarrow> None | Some s' \<Rightarrow> undoStep D w c x y s') (Some s) moves"

definition movesOnBoard :: "int \<Rightarrow> (Color \<times> int \<times> int) list \<Rightarrow> bool" where
  "movesOnBoard bs moves = list_all (\<lambda>(c, x, y). 0 \<le> x \<and> x < bs \<and> 0 \<le> y \<and> y < bs) moves"


section \<open>Properties of the transposition table\<close>

lemma derivedNumBuckets_exact:
  assumes "sizeofBucket K dvd 1024" and "hashSizeKB * 1024 < 2 ^ 64"
  shows "derivedNumBuckets K hashSizeKB = max (hashSizeKB * 1024 div sizeofBucket K) 1"
proof -
  have e: "hashSizeKB * (1024 div sizeofBucket K) = hashSizeKB * 1024 div sizeofBucket K"
    using assms(1) by (rule div_mult_swap)
  have "hashSizeKB * 1024 div sizeofBucket K \<le> hashSizeKB * 1024"
    by (rule div_le_dividend)
  then have "hashSizeKB * 1024 div sizeofBucket K < 2 ^ 64"
    using assms(2) by linarith
  then show ?thesis
    by (simp add: derivedNumBuckets_def e)
qed

text \<open>
  C10.  A \<^verbatim>\<open>resize\<close> whose derived bucket count equals the current \<^verbatim>\<open>numBuckets\<close> does
  nothing: no waiting, no free, no allocation, no clear, and the table (pointer, bucket
  contents, generation counter) is returned as it was.
\<close>

theorem resize_same_size_noop:
  "derivedNumBuckets K hashSizeKB = numBuckets t \<Longrightarrow>
   resize K alloc fresh hashSizeKB t = ([], Some t)"
  by (simp add: resize_def)

theorem resize_same_size_noop_witness:
  "derivedNumBuckets \<lparr>ENTRIES_PER_BUCKET = 5, sizeofBucket = 64, DEPTH_LOWER_BOUND = - 20,
       Pos_NONE = 0, searchValueToStoredValue = (\<lambda>v p. v),
       storedValueToSearchValue = (\<lambda>v p. v)\<rparr> 1
     = numBuckets \<lparr>table = Some (replicate 16 (replicate 5 zeroEntry)), numBuckets = 16,
         generation = 7\<rparr>
   \<and> resize \<lparr>ENTRIES_PER_BUCKET = 5, sizeofBucket = 64, DEPTH_LOWER_BOUND = - 20,
       Pos_NONE = 0, searchValueToStoredValue = (\<lambda>v p. v),
       storedValueToSearchValue = (\<lambda>v p. v)\<rparr> (\<lambda>n. True) [] 1
       \<lparr>table = Some (replicate 16 (replicate 5 zeroEntry)), numBuckets = 16, generation = 7\<rparr>
     = ([], Some \<lparr>table = Some (replicate 16 (replicate 5 zeroEntry)), numBuckets = 16,
         generation = 7\<rparr>)"
proof -
  have h: "derivedNumBuckets \<lparr>ENTRIES_PER_BUCKET = 5, sizeofBucket = 64,
       DEPTH_LOWER_BOUND = - 20, Pos_NONE = 0, searchValueToStoredValue = (\<lambda>v p. v),
       storedValueToSearchValue = (\<lambda>v p. v)\<rparr> 1
     = numBuckets \<lparr>table = Some (replicate 16 (replicate 5 zeroEntry)), numBuckets = 16,
         generation = 7\<rparr>"
    by (simp add: derivedNumBuckets_def)
  show ?thesis
    using h resize_same_size_noop [OF h] by simp
qed


subsection \<open>hashUsage\<close>

lemma countBucket_filter:
  "countBucket gen entry js cnt = cnt + length (filter (\<lambda>j. usedEntry gen (entry ! j)) js)"
  by (induction js arbitrary: cnt) simp_all

lemma filter_nth_upt:
  "length (filter (\<lambda>j. P (xs ! j)) [0..<length xs]) = length (filter P xs)"
proof -
  have "filter P (map ((!) xs) [0..<length xs]) = map ((!) xs) (filter (\<lambda>j. P (xs ! j)) [0..<length xs])"
    by (simp add: filter_map comp_def)
  then show ?thesis
    by (metis length_map map_nth)
qed

lemma countBucket_all:
  "length entry = n \<Longrightarrow> countBucket gen entry [0..<n] cnt = cnt + length (filter (usedEntry gen) entry)"
  using filter_nth_upt [of "usedEntry gen" entry] by (simp add: countBucket_filter)

lemma countSample_filter:
  "\<forall>i \<in> set is. length (tb ! i) = ENTRIES_PER_BUCKET K \<Longrightarrow>
   countSample K gen tb is cnt
     = cnt + length (filter (usedEntry gen) (concat (map ((!) tb) is)))"
  by (induction "is" arbitrary: cnt) (simp_all add: countBucket_all)

lemma map_nth_take: "n \<le> length xs \<Longrightarrow> map ((!) xs) [0..<n] = take n xs"
  by (rule nth_equalityI) simp_all

lemma length_concat_uniform:
  "\<forall>b \<in> set bs. length b = n \<Longrightarrow> length (concat bs) = n * length bs"
  by (induction bs) simp_all

text \<open>
  C9.  \<^verbatim>\<open>hashUsage\<close> divides by \<open>ENTRIES_PER_BUCKET \<cdot> (numBuckets >> 10)\<close>: it has a result
  exactly when \<open>numBuckets \<ge> 1024\<close>, and the result then is the permille, among the entries
  of the first \<open>numBuckets >> 10\<close> buckets, of those with \<open>depth8 \<noteq> 0\<close> and \<open>generation8\<close>
  equal to the current generation.
\<close>

theorem hashUsage_permille:
  assumes wf: "wf_table K t" and tb: "table t = Some tb"
    and small: "ENTRIES_PER_BUCKET K * numBuckets t < 2 ^ 64"
  shows "(hashUsage K t = None \<longleftrightarrow> numBuckets t < 1024)
    \<and> (1024 \<le> numBuckets t \<longrightarrow>
         hashUsage K t =
           Some (int (length (filter (\<lambda>e. depth8 e \<noteq> 0 \<and> generation8 e = generation t)
                         (concat (take (numBuckets t div 1024) tb))) * 1000
                      div length (concat (take (numBuckets t div 1024) tb)))))"
proof -
  have nb: "0 < numBuckets t" "length tb = numBuckets t"
    and epb: "0 < ENTRIES_PER_BUCKET K"
    and lens: "\<forall>b \<in> set tb. length b = ENTRIES_PER_BUCKET K"
    using wf tb by (auto simp: wf_table_def list_all_iff)
  define n where "n = numBuckets t div 1024"
  define sample where "sample = take n tb"
  have n_le: "n \<le> length tb" by (simp add: n_def nb)
  have dropbit: "drop_bit 10 (numBuckets t) = n"
    by (simp add: n_def drop_bit_eq_div)
  have sample_lens: "\<forall>b \<in> set sample. length b = ENTRIES_PER_BUCKET K"
    using lens by (auto simp: sample_def dest: in_set_takeD)
  have total: "length (concat sample) = ENTRIES_PER_BUCKET K * n"
    using length_concat_uniform [OF sample_lens] n_le by (simp add: sample_def)
  have "\<forall>i \<in> set [0..<n]. length (tb ! i) = ENTRIES_PER_BUCKET K"
    using lens n_le by simp
  then have cnt: "countSample K (generation t) tb [0..<n] 0
      = length (filter (usedEntry (generation t)) (concat sample))"
    by (simp add: countSample_filter map_nth_take [OF n_le] sample_def)
  define c where "c = length (filter (usedEntry (generation t)) (concat sample))"
  have "c \<le> length (concat sample)" by (simp add: c_def)
  then have c_le: "c \<le> ENTRIES_PER_BUCKET K * n" by (simp add: total)
  have "n * 1024 \<le> numBuckets t" by (simp add: n_def)
  then have "ENTRIES_PER_BUCKET K * n * 1024 \<le> ENTRIES_PER_BUCKET K * numBuckets t"
    by (metis mult.assoc mult_le_mono2)
  then have b1: "ENTRIES_PER_BUCKET K * n * 1024 < 2 ^ 64" using small by linarith
  then have b2: "ENTRIES_PER_BUCKET K * n < 2 ^ 64" by linarith
  have "c * 1000 \<le> ENTRIES_PER_BUCKET K * n * 1024" using c_le by linarith
  then have b3: "c * 1000 < 2 ^ 64" using b1 by linarith
  have hu: "hashUsage K t = (if ENTRIES_PER_BUCKET K * n = 0 then None
      else Some (int (c * 1000 div (ENTRIES_PER_BUCKET K * n))))"
    using b2 b3 by (simp add: hashUsage_def tb dropbit cnt c_def Let_def)
  have zero: "ENTRIES_PER_BUCKET K * n = 0 \<longleftrightarrow> numBuckets t < 1024"
    using epb by (auto simp: n_def div_eq_0_iff)
  show ?thesis
    using hu zero total
    by (simp add: sample_def c_def usedEntry_def [abs_def] n_def)
qed

theorem hashUsage_permille_witness:
  "wf_table exampleConsts emptyTable1MB
   \<and> ENTRIES_PER_BUCKET exampleConsts * numBuckets emptyTable1MB < 2 ^ 64
   \<and> hashUsage exampleConsts emptyTable1MB \<noteq> None
   \<and> hashUsage exampleConsts emptyTable1KB = None"
proof -
  have w1: "wf_table exampleConsts emptyTable1MB"
    by (simp add: wf_table_def emptyTable1MB_def exampleConsts_def list_all_iff)
  have t1: "table emptyTable1MB = Some (replicate 16384 (replicate 5 zeroEntry))"
    by (simp add: emptyTable1MB_def)
  have s1: "ENTRIES_PER_BUCKET exampleConsts * numBuckets emptyTable1MB < 2 ^ 64"
    by (simp add: emptyTable1MB_def exampleConsts_def)
  have w2: "wf_table exampleConsts emptyTable1KB"
    by (simp add: wf_table_def emptyTable1KB_def exampleConsts_def list_all_iff)
  have t2: "table emptyTable1KB = Some (replicate 16 (replicate 5 zeroEntry))"
    by (simp add: emptyTable1KB_def)
  have s2: "ENTRIES_PER_BUCKET exampleConsts * numBuckets emptyTable1KB < 2 ^ 64"
    by (simp add: emptyTable1KB_def exampleConsts_def)
  have big: "\<not> numBuckets emptyTable1MB < 1024" by (simp add: emptyTable1MB_def)
  have small: "numBuckets emptyTable1KB < 1024" by (simp add: emptyTable1KB_def)
  from hashUsage_permille [OF w1 t1 s1] big
  have "hashUsage exampleConsts emptyTable1MB \<noteq> None" by blast
  moreover from hashUsage_permille [OF w2 t2 s2] small
  have "hashUsage exampleConsts emptyTable1KB = None" by blast
  ultimately show ?thesis using w1 s1 by blast
qed

subsection \<open>store and probe\<close>

lemma key_newEntry [simp]:
  "key (newEntry K gen k v e p b m d ply) = k"
  by (simp add: newEntry_def key_def Let_def data0_def data1_def word_bw_assocs)

lemma small_int_bits:
  assumes "0 \<le> (m::int)" "m < 2 ^ k" "bit m n"
  shows "n < k"
proof -
  have "take_bit k m = m" using assms by (simp add: take_bit_int_eq_self)
  then have "bit (take_bit k m) n" using assms(3) by simp
  then show ?thesis by (simp add: bit_take_bit_iff)
qed

lemma move_bits:
  assumes "0 \<le> (move::int)" "move < 1024" "bit move n"
  shows "n < 10"
  using small_int_bits [of move 10 n] assms by simp

lemma bit_bound_code:
  "bit (bound_code bound) n \<longleftrightarrow>
     (n = 0 \<and> (bound = BOUND_UPPER \<or> bound = BOUND_EXACT))
   \<or> (n = 1 \<and> (bound = BOUND_LOWER \<or> bound = BOUND_EXACT))"
  by (cases bound) (auto simp: bit_simps bit_numeral_rec split: nat.splits)

lemma pv_decode_move:
  assumes "0 \<le> move" "move < 1024"
  shows "uint ((push_bit 15 (of_bool isPv) OR push_bit 13 (bound_code bound)
                 OR (word_of_int move :: 16 word)) AND 0x3ff) = move"
proof -
  have m: "(0x3ff :: 16 word) = mask 10" by (simp add: mask_eq_exp_minus_1)
  have "(push_bit 15 (of_bool isPv) OR push_bit 13 (bound_code bound)
                 OR (word_of_int move :: 16 word)) AND mask 10 = word_of_int move"
    by (rule bit_word_eqI) (auto simp: bit_simps bit_bound_code dest: move_bits [OF assms])
  moreover have "uint (word_of_int move :: 16 word) = move"
    using assms by (simp add: uint_word_of_int take_bit_int_eq_self)
  ultimately show ?thesis by (simp add: m)
qed

lemma pv_decode_bound:
  assumes "0 \<le> move" "move < 1024"
  shows "bound_of (drop_bit 13 (push_bit 15 (of_bool isPv) OR push_bit 13 (bound_code bound)
                 OR (word_of_int move :: 16 word)) AND 3) = bound"
proof -
  have m: "(3 :: 16 word) = mask 2" by (simp add: mask_eq_exp_minus_1)
  have "drop_bit 13 (push_bit 15 (of_bool isPv) OR push_bit 13 (bound_code bound)
                 OR (word_of_int move :: 16 word)) AND mask 2 = bound_code bound"
    by (rule bit_word_eqI) (auto simp: bit_simps bit_bound_code dest: move_bits [OF assms])
  moreover have "bound_of (bound_code bound) = bound"
    by (cases bound) (simp_all add: bound_of_def)
  ultimately show ?thesis by (simp add: m)
qed

lemma pv_decode_isPv:
  assumes "0 \<le> move" "move < 1024"
  shows "(drop_bit 15 (push_bit 15 (of_bool isPv) OR push_bit 13 (bound_code bound)
                 OR (word_of_int move :: 16 word)) \<noteq> 0) = isPv"
proof -
  have "drop_bit 15 (push_bit 15 (of_bool isPv) OR push_bit 13 (bound_code bound)
                 OR (word_of_int move :: 16 word)) = (of_bool isPv :: 16 word)"
    by (rule bit_word_eqI) (auto simp: bit_simps bit_bound_code dest: move_bits [OF assms])
  then show ?thesis by simp
qed

lemma sint16_of_int: "- 32768 \<le> v \<Longrightarrow> v < 32768 \<Longrightarrow> sint (word_of_int v :: 16 word) = v"
  by (simp add: signed_of_int signed_take_bit_int_eq_self)

lemma uint8_of_int: "0 \<le> v \<Longrightarrow> v < 256 \<Longrightarrow> uint (word_of_int v :: 8 word) = v"
  by (simp add: uint_word_of_int take_bit_int_eq_self)

lemma probeLoop_append:
  "probeLoop es k (xs @ ys) = (case probeLoop es k xs of Some i \<Rightarrow> Some i | None \<Rightarrow> probeLoop es k ys)"
  by (induction xs) simp_all

lemma probeLoop_None:
  "probeLoop es k is = None \<longleftrightarrow> (\<forall>i \<in> set is. key (es ! i) \<noteq> k)"
  by (induction "is") simp_all

lemma probeLoop_upt_SomeD:
  "probeLoop es k [0..<n] = Some i \<Longrightarrow> i < n \<and> key (es ! i) = k \<and> (\<forall>j<i. key (es ! j) \<noteq> k)"
proof (induction n arbitrary: i)
  case 0
  then show ?case by simp
next
  case (Suc n)
  show ?case
  proof (cases "probeLoop es k [0..<n]")
    case None
    then have no: "\<forall>j<n. key (es ! j) \<noteq> k"
      by (simp add: probeLoop_None)
    from Suc.prems None have "key (es ! n) = k \<and> i = n"
      by (simp add: probeLoop_append split: if_splits)
    with no show ?thesis by simp
  next
    case (Some i')
    with Suc.prems have "i' = i" by (simp add: probeLoop_append)
    with Some Suc.IH [of i] show ?thesis by simp
  qed
qed

lemma probeLoop_upt_SomeI:
  "i < n \<Longrightarrow> key (es ! i) = k \<Longrightarrow> \<forall>j<i. key (es ! j) \<noteq> k \<Longrightarrow> probeLoop es k [0..<n] = Some i"
proof (induction n)
  case 0
  then show ?case by simp
next
  case (Suc n)
  show ?case
  proof (cases "i < n")
    case True
    with Suc have "probeLoop es k [0..<n] = Some i" by simp
    then show ?thesis by (simp add: probeLoop_append)
  next
    case False
    with Suc.prems have i: "i = n" by simp
    with Suc.prems have "probeLoop es k [0..<n] = None" by (simp add: probeLoop_None)
    with Suc.prems i show ?thesis by (simp add: probeLoop_append)
  qed
qed

lemma storeLoop_probe_Some:
  "probeLoop es k is = Some i \<Longrightarrow> storeLoop es gen k r is = i"
  by (induction "is" arbitrary: r) (simp_all split: if_splits)

lemma storeLoop_range:
  "storeLoop es gen k r is \<in> insert r (set is)"
  by (induction "is" arbitrary: r) (simp_all, metis)

lemma storeLoop_minimal:
  "probeLoop es k is = None \<Longrightarrow>
   replaceValue gen (es ! storeLoop es gen k r is) \<le> replaceValue gen (es ! r)
   \<and> (\<forall>i \<in> set is. replaceValue gen (es ! storeLoop es gen k r is) \<le> replaceValue gen (es ! i))"
proof (induction "is" arbitrary: r)
  case Nil
  then show ?case by simp
next
  case (Cons a "is")
  from Cons.prems have nk: "key (es ! a) \<noteq> k" and rest: "probeLoop es k is = None"
    by (simp_all split: if_splits)
  define r' where "r' = (if replaceValue gen (es ! a) < replaceValue gen (es ! r) then a else r)"
  have step: "storeLoop es gen k r (a # is) = storeLoop es gen k r' is"
    using nk by (simp add: r'_def)
  from Cons.IH [OF rest, of r']
  have ih: "replaceValue gen (es ! storeLoop es gen k r' is) \<le> replaceValue gen (es ! r')"
    "\<forall>i \<in> set is. replaceValue gen (es ! storeLoop es gen k r' is) \<le> replaceValue gen (es ! i)"
    by simp_all
  have "replaceValue gen (es ! r') \<le> replaceValue gen (es ! r)"
    "replaceValue gen (es ! r') \<le> replaceValue gen (es ! a)"
    by (simp_all add: r'_def)
  with ih show ?case unfolding step by auto
qed

text \<open>The slot selected by store.\<close>

lemma replaceIndex_props:
  assumes "0 < ENTRIES_PER_BUCKET K"
    and r_def: "r = replaceIndex K hashKey t es"
  shows "r < ENTRIES_PER_BUCKET K"
    and "\<forall>j<r. key (es ! j) \<noteq> ucast hashKey"
    and "key (es ! r) \<noteq> ucast hashKey \<Longrightarrow>
           \<forall>j<ENTRIES_PER_BUCKET K. key (es ! j) \<noteq> ucast hashKey
                \<and> replaceValue (generation t) (es ! r) \<le> replaceValue (generation t) (es ! j)"
proof -
  let ?n = "ENTRIES_PER_BUCKET K" and ?k = "ucast hashKey :: 32 word"
  show lt: "r < ?n"
    using storeLoop_range [of es "generation t" ?k 0 "[0..<?n]"] assms(1)
    by (auto simp: r_def replaceIndex_def)
  show first: "\<forall>j<r. key (es ! j) \<noteq> ?k"
  proof (cases "probeLoop es ?k [0..<?n]")
    case None
    then show ?thesis using lt by (simp add: probeLoop_None)
  next
    case (Some i)
    then have "r = i" by (simp add: r_def replaceIndex_def storeLoop_probe_Some)
    with probeLoop_upt_SomeD [OF Some] show ?thesis by simp
  qed
  assume nk: "key (es ! r) \<noteq> ?k"
  have none: "probeLoop es ?k [0..<?n] = None"
  proof (cases "probeLoop es ?k [0..<?n]")
    case None
    then show ?thesis .
  next
    case (Some i)
    then have "r = i" by (simp add: r_def replaceIndex_def storeLoop_probe_Some)
    with probeLoop_upt_SomeD [OF Some] nk show ?thesis by simp
  qed
  show "\<forall>j<?n. key (es ! j) \<noteq> ?k
                \<and> replaceValue (generation t) (es ! r) \<le> replaceValue (generation t) (es ! j)"
    using none storeLoop_minimal [OF none, of "generation t" 0]
    by (simp add: probeLoop_None r_def replaceIndex_def)
qed


lemma firstEntry_less:
  "0 < numBuckets t \<Longrightarrow> firstEntry t hashKey < numBuckets t"
proof -
  assume pos: "0 < numBuckets t"
  have "unat hashKey < 2 ^ 64"
    using unsigned_less [of hashKey, where ?'a = nat] by simp
  then have "unat hashKey * numBuckets t < 2 ^ 64 * numBuckets t"
    using pos by simp
  then show ?thesis
    by (simp add: firstEntry_def less_mult_imp_div_less mult.commute)
qed

lemma firstEntry_S1: "firstEntry emptyTable1KB hashS1 = 13" "firstEntry tableS1 hashS1 = 13"
  by (simp_all add: firstEntry_def emptyTable1KB_def tableS1_def hashS1_def)

lemma ucast_S1: "(ucast hashS1 :: 32 word) = 0xCAFEBABE"
  by (simp add: hashS1_def)

lemma key_zeroEntry: "key zeroEntry = 0"
  by (simp add: key_def zeroEntry_def data0_def data1_def)

lemma upt5: "[0..<5] = [0, 1, 2, 3, 4]"
  by (simp add: upt_rec)

lemma newEntry_sel:
  "value16 (newEntry K gen k v e p b m d ply) = word_of_int (searchValueToStoredValue K v ply)"
  "eval16 (newEntry K gen k v e p b m d ply) = word_of_int e"
  "pvBoundBest16 (newEntry K gen k v e p b m d ply)
     = push_bit 15 (of_bool p) OR push_bit 13 (bound_code b) OR word_of_int m"
  "depth8 (newEntry K gen k v e p b m d ply) = word_of_int (d - DEPTH_LOWER_BOUND K)"
  "generation8 (newEntry K gen k v e p b m d ply) = gen"
  by (simp_all add: newEntry_def Let_def del: of_int_diff)

lemma store_unfold:
  assumes "table t = Some tb"
    and "entry = tb ! firstEntry t hashKey"
    and "r = replaceIndex K hashKey t entry"
  shows "store K hashKey val eval isPv bound move depth ply t =
     (if storeSkips K bound (ucast hashKey) depth (entry ! r)
      then Some t
      else Some (t\<lparr>table := Some (tb[firstEntry t hashKey := entry[r :=
             newEntry K (generation t) (ucast hashKey) val eval isPv bound
               (if move = Pos_NONE K \<and> ucast hashKey = key (entry ! r)
                then uint (pvBoundBest16 (entry ! r) AND 0x3ff) else move) depth ply]])\<rparr>))"
  using assms by (simp add: store_def Let_def)

lemma probe_hit:
  assumes "table t = Some tb"
    and "probeLoop (tb ! firstEntry t hashKey) (ucast hashKey) [0..<ENTRIES_PER_BUCKET K] = Some i"
    and "tte = tb ! firstEntry t hashKey ! i"
  shows "map_option fst (probe K hashKey ply t) =
     Some (Some \<lparr>ttValue = storedValueToSearchValue K (sint (value16 tte)) ply,
                  ttEval = sint (eval16 tte),
                  ttIsPv = (drop_bit 15 (pvBoundBest16 tte) \<noteq> 0),
                  ttBound = bound_of (drop_bit 13 (pvBoundBest16 tte) AND 3),
                  ttMove = uint (pvBoundBest16 tte AND 0x3ff),
                  ttDepth = uint (depth8 tte) + DEPTH_LOWER_BOUND K\<rparr>)"
  using assms by (simp add: probe_def Let_def)

lemma table_emptyTable1KB: "table emptyTable1KB = Some (replicate 16 (replicate 5 zeroEntry))"
  by (simp add: emptyTable1KB_def)

lemma table_tableS1:
  "table tableS1 = Some ((replicate 16 (replicate 5 zeroEntry))[13 := (replicate 5 zeroEntry)[0 := entryS1]])"
  by (simp add: tableS1_def)

lemma epb_example: "ENTRIES_PER_BUCKET exampleConsts = 5"
  by (simp add: exampleConsts_def)

lemma key_entryS1: "key entryS1 = 0xCAFEBABE"
  by (simp add: entryS1_def)

lemma depth_entryS1: "uint (depth8 entryS1) = 5"
  by (simp add: entryS1_def newEntry_sel exampleConsts_def)

lemma storeS1:
  "store exampleConsts hashS1 100 50 True BOUND_EXACT 231 (- 15) 0 emptyTable1KB = Some tableS1"
proof -
  have r: "replaceIndex exampleConsts hashS1 emptyTable1KB (replicate 5 zeroEntry) = 0"
    by (simp add: replaceIndex_def epb_example upt5 ucast_S1 key_zeroEntry)
  have "store exampleConsts hashS1 100 50 True BOUND_EXACT 231 (- 15) 0 emptyTable1KB
      = Some (emptyTable1KB\<lparr>table := Some ((replicate 16 (replicate 5 zeroEntry))
                  [13 := (replicate 5 zeroEntry)[0 := entryS1]])\<rparr>)"
    unfolding store_unfold [OF table_emptyTable1KB refl refl] firstEntry_S1
    by (simp add: r storeSkips_def ucast_S1 key_zeroEntry entryS1_def)
       (simp add: exampleConsts_def emptyTable1KB_def)
  then show ?thesis by (simp add: emptyTable1KB_def tableS1_def)
qed

lemma xor_right_cancel32: "(a XOR c = b XOR c) \<longleftrightarrow> a = (b :: 32 word)"
proof
  assume "a XOR c = b XOR c"
  then have "(a XOR c) XOR c = (b XOR c) XOR c" by simp
  then show "a = b" by (simp add: xor.assoc)
qed simp

lemma key32_newEntry:
  "key32 (newEntry K gen k v e p b m d ply)
     = k XOR data0 (newEntry K gen k v e p b m d ply) XOR data1 (newEntry K gen k v e p b m d ply)"
  by (simp add: newEntry_def Let_def data0_def data1_def)

lemma TTEntry_eq_iff:
  "e = e' \<longleftrightarrow> value16 e = value16 e' \<and> eval16 e = eval16 e' \<and> pvBoundBest16 e = pvBoundBest16 e'
      \<and> depth8 e = depth8 e' \<and> generation8 e = generation8 e' \<and> key e = key (e' :: TTEntry)"
proof
  assume "e = e'"
  then show "value16 e = value16 e' \<and> eval16 e = eval16 e' \<and> pvBoundBest16 e = pvBoundBest16 e'
      \<and> depth8 e = depth8 e' \<and> generation8 e = generation8 e' \<and> key e = key e'" by simp
next
  assume a: "value16 e = value16 e' \<and> eval16 e = eval16 e' \<and> pvBoundBest16 e = pvBoundBest16 e'
      \<and> depth8 e = depth8 e' \<and> generation8 e = generation8 e' \<and> key e = key e'"
  then have d: "data0 e = data0 e'" "data1 e = data1 e'" by (simp_all add: data0_def data1_def)
  from a have "key32 e XOR data0 e XOR data1 e = key32 e' XOR data0 e' XOR data1 e'"
    by (simp add: key_def)
  then have "key32 e XOR (data0 e XOR data1 e) = key32 e' XOR (data0 e XOR data1 e)"
    by (simp add: d xor.assoc)
  then have "key32 e = key32 e'" by (simp only: xor_right_cancel32)
  with a show "e = e'" by (intro TTEntry.equality) simp_all
qed

lemma newEntry_same:
  "newEntry K gen k v e p b m d ply = old \<longleftrightarrow>
     value16 old = word_of_int (searchValueToStoredValue K v ply)
   \<and> eval16 old = word_of_int e
   \<and> pvBoundBest16 old = push_bit 15 (of_bool p) OR push_bit 13 (bound_code b) OR word_of_int m
   \<and> depth8 old = word_of_int (d - DEPTH_LOWER_BOUND K)
   \<and> generation8 old = gen
   \<and> key old = k"
  unfolding TTEntry_eq_iff [of "newEntry K gen k v e p b m d ply" old] newEntry_sel key_newEntry
  by (auto simp del: of_int_diff)

lemma wf_tableD:
  assumes "wf_table K t" "table t = Some tb"
  shows "firstEntry t hashKey < length tb"
    and "length (tb ! firstEntry t hashKey) = ENTRIES_PER_BUCKET K"
    and "0 < ENTRIES_PER_BUCKET K"
proof -
  from assms have p: "0 < numBuckets t" "length tb = numBuckets t" "0 < ENTRIES_PER_BUCKET K"
    and all: "\<forall>b \<in> set tb. length b = ENTRIES_PER_BUCKET K"
    by (simp_all add: wf_table_def list_all_iff)
  show lt: "firstEntry t hashKey < length tb"
    using firstEntry_less [OF p(1)] p(2) by simp
  then have "tb ! firstEntry t hashKey \<in> set tb" by (rule nth_mem)
  with all show "length (tb ! firstEntry t hashKey) = ENTRIES_PER_BUCKET K" by simp
  show "0 < ENTRIES_PER_BUCKET K" by (rule p(3))
qed

lemma update2_nth:
  assumes "b0 < length tb" "r < length (tb ! b0)"
  shows "length (tb[b0 := (tb ! b0)[r := x]]) = length tb"
    and "tb[b0 := (tb ! b0)[r := x]] ! b0 ! r = x"
    and "\<forall>b < length tb. length (tb[b0 := (tb ! b0)[r := x]] ! b) = length (tb ! b)
           \<and> (\<forall>i < length (tb ! b). (b, i) \<noteq> (b0, r) \<longrightarrow> tb[b0 := (tb ! b0)[r := x]] ! b ! i = tb ! b ! i)"
  using assms by (auto simp: nth_list_update)

lemma wf_tableS1: "wf_table exampleConsts tableS1"
  by (simp add: wf_table_def tableS1_def exampleConsts_def list_all_iff)
     (auto dest!: set_update_subset_insert [THEN subsetD])

lemma replaceIndex_S1:
  "replaceIndex exampleConsts hashS1 tableS1 ((replicate 5 zeroEntry)[0 := entryS1]) = 0"
  by (simp add: replaceIndex_def epb_example upt5 ucast_S1 key_entryS1)

lemma bucket_S1:
  "(replicate 5 zeroEntry)[0 := entryS1]
     = (replicate 16 (replicate 5 zeroEntry))[13 := (replicate 5 zeroEntry)[0 := entryS1]]
         ! firstEntry tableS1 hashS1"
  by (simp add: firstEntry_S1)

text \<open>
  C6, with the written record spelled out.  \<^verbatim>\<open>store\<close> returns without writing, the table as
  it is, when \<open>bound \<noteq> EXACT\<close>, the low 32 bits of the new hash equal the recomputed key of the
  selected replacement entry, and \<open>depth + 2\<close> is below that entry's depth (\<^verbatim>\<open>depth8\<close> plus
  \<^verbatim>\<open>DEPTH_LOWER_BOUND\<close>).  In every other case it writes the new record into the selected slot:
  the converted value and the eval in 16 bits, the pv flag, the bound and the move packed in
  16 bits (the move being the one the slot held when none is given and the keys agree), the
  depth above \<^verbatim>\<open>DEPTH_LOWER_BOUND\<close> in 8 bits, the generation of the table, and the key folded
  with the two data words; every other slot of the table stays as it is.  The selected entry
  is therefore left unchanged exactly when the condition holds or the record written is the
  record the slot held.
\<close>

theorem store_overwrite_rule:
  assumes wf: "wf_table K t" and tb: "table t = Some tb"
    and entry: "entry = tb ! firstEntry t hashKey"
    and r: "r = replaceIndex K hashKey t entry"
    and skip: "skip \<longleftrightarrow> bound \<noteq> BOUND_EXACT \<and> ucast hashKey = key (entry ! r)
                 \<and> depth + 2 < uint (depth8 (entry ! r)) + DEPTH_LOWER_BOUND K"
    and mv: "move' = (if move = Pos_NONE K \<and> ucast hashKey = key (entry ! r)
                      then uint (pvBoundBest16 (entry ! r) AND 0x3ff) else move)"
    and same: "same \<longleftrightarrow> value16 (entry ! r) = word_of_int (searchValueToStoredValue K val ply)
                 \<and> eval16 (entry ! r) = word_of_int eval
                 \<and> pvBoundBest16 (entry ! r)
                     = push_bit 15 (of_bool isPv) OR push_bit 13 (bound_code bound) OR word_of_int move'
                 \<and> depth8 (entry ! r) = word_of_int (depth - DEPTH_LOWER_BOUND K)
                 \<and> generation8 (entry ! r) = generation t
                 \<and> key (entry ! r) = ucast hashKey"
  shows "(skip \<longrightarrow> store K hashKey val eval isPv bound move depth ply t = Some t)
    \<and> (\<not> skip \<longrightarrow>
         (\<exists>tb'. store K hashKey val eval isPv bound move depth ply t = Some (t\<lparr>table := Some tb'\<rparr>)
            \<and> length tb' = length tb
            \<and> (\<forall>b < length tb. length (tb' ! b) = length (tb ! b)
                  \<and> (\<forall>i < length (tb ! b). (b, i) \<noteq> (firstEntry t hashKey, r)
                        \<longrightarrow> tb' ! b ! i = tb ! b ! i))
            \<and> value16 (tb' ! firstEntry t hashKey ! r)
                = word_of_int (searchValueToStoredValue K val ply)
            \<and> eval16 (tb' ! firstEntry t hashKey ! r) = word_of_int eval
            \<and> pvBoundBest16 (tb' ! firstEntry t hashKey ! r)
                = push_bit 15 (of_bool isPv) OR push_bit 13 (bound_code bound) OR word_of_int move'
            \<and> depth8 (tb' ! firstEntry t hashKey ! r) = word_of_int (depth - DEPTH_LOWER_BOUND K)
            \<and> generation8 (tb' ! firstEntry t hashKey ! r) = generation t
            \<and> key32 (tb' ! firstEntry t hashKey ! r)
                = ucast hashKey XOR data0 (tb' ! firstEntry t hashKey ! r)
                    XOR data1 (tb' ! firstEntry t hashKey ! r)))
    \<and> (\<exists>t' tb'. store K hashKey val eval isPv bound move depth ply t = Some t'
          \<and> table t' = Some tb'
          \<and> (tb' ! firstEntry t hashKey ! r = entry ! r \<longleftrightarrow> skip \<or> same))"
proof -
  define b0 where "b0 = firstEntry t hashKey"
  define new where "new = newEntry K (generation t) (ucast hashKey) val eval isPv bound move' depth ply"
  have b0: "b0 < length tb" and len: "length (tb ! b0) = ENTRIES_PER_BUCKET K"
    and pos: "0 < ENTRIES_PER_BUCKET K"
    unfolding b0_def using wf tb by (rule wf_tableD)+
  have rlt: "r < length (tb ! b0)"
    using replaceIndex_props(1) [OF pos r] by (simp add: len)
  have e: "entry = tb ! b0" by (simp add: entry b0_def)
  have sk: "storeSkips K bound (ucast hashKey) depth (entry ! r) = skip"
    by (simp add: storeSkips_def skip)
  have st: "store K hashKey val eval isPv bound move depth ply t
      = (if skip then Some t else Some (t\<lparr>table := Some (tb[b0 := (tb ! b0)[r := new]])\<rparr>))"
    unfolding store_unfold [OF tb entry r] sk by (simp add: new_def mv b0_def entry)
  note u = update2_nth [OF b0 rlt, of new]
  have nsame: "new = entry ! r \<longleftrightarrow> same"
    unfolding new_def newEntry_same same by (rule refl)
  have c1: "skip \<longrightarrow> store K hashKey val eval isPv bound move depth ply t = Some t"
    by (simp add: st)
  have c2: "\<not> skip \<longrightarrow>
         (\<exists>tb'. store K hashKey val eval isPv bound move depth ply t = Some (t\<lparr>table := Some tb'\<rparr>)
            \<and> length tb' = length tb
            \<and> (\<forall>b < length tb. length (tb' ! b) = length (tb ! b)
                  \<and> (\<forall>i < length (tb ! b). (b, i) \<noteq> (firstEntry t hashKey, r)
                        \<longrightarrow> tb' ! b ! i = tb ! b ! i))
            \<and> value16 (tb' ! firstEntry t hashKey ! r)
                = word_of_int (searchValueToStoredValue K val ply)
            \<and> eval16 (tb' ! firstEntry t hashKey ! r) = word_of_int eval
            \<and> pvBoundBest16 (tb' ! firstEntry t hashKey ! r)
                = push_bit 15 (of_bool isPv) OR push_bit 13 (bound_code bound) OR word_of_int move'
            \<and> depth8 (tb' ! firstEntry t hashKey ! r) = word_of_int (depth - DEPTH_LOWER_BOUND K)
            \<and> generation8 (tb' ! firstEntry t hashKey ! r) = generation t
            \<and> key32 (tb' ! firstEntry t hashKey ! r)
                = ucast hashKey XOR data0 (tb' ! firstEntry t hashKey ! r)
                    XOR data1 (tb' ! firstEntry t hashKey ! r))"
  proof
    assume ns: "\<not> skip"
    show "\<exists>tb'. store K hashKey val eval isPv bound move depth ply t = Some (t\<lparr>table := Some tb'\<rparr>)
            \<and> length tb' = length tb
            \<and> (\<forall>b < length tb. length (tb' ! b) = length (tb ! b)
                  \<and> (\<forall>i < length (tb ! b). (b, i) \<noteq> (firstEntry t hashKey, r)
                        \<longrightarrow> tb' ! b ! i = tb ! b ! i))
            \<and> value16 (tb' ! firstEntry t hashKey ! r)
                = word_of_int (searchValueToStoredValue K val ply)
            \<and> eval16 (tb' ! firstEntry t hashKey ! r) = word_of_int eval
            \<and> pvBoundBest16 (tb' ! firstEntry t hashKey ! r)
                = push_bit 15 (of_bool isPv) OR push_bit 13 (bound_code bound) OR word_of_int move'
            \<and> depth8 (tb' ! firstEntry t hashKey ! r) = word_of_int (depth - DEPTH_LOWER_BOUND K)
            \<and> generation8 (tb' ! firstEntry t hashKey ! r) = generation t
            \<and> key32 (tb' ! firstEntry t hashKey ! r)
                = ucast hashKey XOR data0 (tb' ! firstEntry t hashKey ! r)
                    XOR data1 (tb' ! firstEntry t hashKey ! r)"
      unfolding b0_def [symmetric]
    proof (intro exI [of _ "tb[b0 := (tb ! b0)[r := new]]"] conjI)
      show "store K hashKey val eval isPv bound move depth ply t
          = Some (t\<lparr>table := Some (tb[b0 := (tb ! b0)[r := new]])\<rparr>)"
        using ns by (simp add: st)
      show "length (tb[b0 := (tb ! b0)[r := new]]) = length tb" by (rule u(1))
      show "\<forall>b<length tb. length (tb[b0 := (tb ! b0)[r := new]] ! b) = length (tb ! b)
           \<and> (\<forall>i<length (tb ! b). (b, i) \<noteq> (b0, r)
                 \<longrightarrow> tb[b0 := (tb ! b0)[r := new]] ! b ! i = tb ! b ! i)" by (rule u(3))
    qed (simp_all only: u(2), simp_all only: new_def newEntry_sel key32_newEntry)
  qed
  have c3: "\<exists>t' tb'. store K hashKey val eval isPv bound move depth ply t = Some t'
          \<and> table t' = Some tb'
          \<and> (tb' ! firstEntry t hashKey ! r = entry ! r \<longleftrightarrow> skip \<or> same)"
  proof (cases skip)
    case True
    then show ?thesis using tb by (simp add: st entry)
  next
    case False
    have "tb[b0 := (tb ! b0)[r := new]] ! b0 ! r = entry ! r \<longleftrightarrow> skip \<or> same"
      using False by (simp only: u(2) nsame) simp
    then show ?thesis
      using False by (simp add: st b0_def)
  qed
  show ?thesis by (intro conjI) (rule c1 c2 c3)+
qed

theorem store_overwrite_rule_witness:
  "wf_table exampleConsts tableS1
   \<and> store exampleConsts hashS1 100 50 True BOUND_UPPER 0 (- 18) 0 tableS1 = Some tableS1
   \<and> (\<exists>tb'. store exampleConsts hashS1 7 8 False BOUND_UPPER 0 (- 17) 0 tableS1
               = Some (tableS1\<lparr>table := Some tb'\<rparr>)
          \<and> value16 (tb' ! 13 ! 0) = 7 \<and> eval16 (tb' ! 13 ! 0) = 8
          \<and> pvBoundBest16 (tb' ! 13 ! 0) = 8423 \<and> depth8 (tb' ! 13 ! 0) = 3
          \<and> generation8 (tb' ! 13 ! 0) = 0 \<and> tb' ! 13 ! 1 = zeroEntry)"
proof -
  have r: "0 = replaceIndex exampleConsts hashS1 tableS1 ((replicate 5 zeroEntry)[0 := entryS1])"
    by (simp add: replaceIndex_S1)
  have old: "(replicate 5 zeroEntry)[0 := entryS1] ! 0 = entryS1" by simp
  have c: "Pos_NONE exampleConsts = 0" "DEPTH_LOWER_BOUND exampleConsts = - 20"
    "generation tableS1 = 0" "searchValueToStoredValue exampleConsts v p = v" for v p
    by (simp_all add: exampleConsts_def tableS1_def)
  have mvS1: "uint (pvBoundBest16 entryS1 AND 0x3ff) = 231"
    by (simp add: entryS1_def newEntry_sel)
  have skip1: "True \<longleftrightarrow> BOUND_UPPER \<noteq> BOUND_EXACT
      \<and> ucast hashS1 = key ((replicate 5 zeroEntry)[0 := entryS1] ! 0)
      \<and> - 18 + 2 < uint (depth8 ((replicate 5 zeroEntry)[0 := entryS1] ! 0))
                      + DEPTH_LOWER_BOUND exampleConsts"
    by (simp add: ucast_S1 key_entryS1 depth_entryS1 c)
  have skip2: "False \<longleftrightarrow> BOUND_UPPER \<noteq> BOUND_EXACT
      \<and> ucast hashS1 = key ((replicate 5 zeroEntry)[0 := entryS1] ! 0)
      \<and> - 17 + 2 < uint (depth8 ((replicate 5 zeroEntry)[0 := entryS1] ! 0))
                      + DEPTH_LOWER_BOUND exampleConsts"
    by (simp add: ucast_S1 key_entryS1 depth_entryS1 c)
  have mv: "231 = (if 0 = Pos_NONE exampleConsts
                      \<and> ucast hashS1 = key ((replicate 5 zeroEntry)[0 := entryS1] ! 0)
                   then uint (pvBoundBest16 ((replicate 5 zeroEntry)[0 := entryS1] ! 0) AND 0x3ff)
                   else 0)"
    by (simp add: c ucast_S1 key_entryS1 mvS1)
  note s1 = store_overwrite_rule [OF wf_tableS1 table_tableS1 bucket_S1 r skip1 mv refl,
      where val = 100 and eval = 50 and isPv = True and ply = 0, THEN conjunct1, THEN mp, OF TrueI]
  note s2 = store_overwrite_rule [OF wf_tableS1 table_tableS1 bucket_S1 r skip2 mv refl,
      where val = 7 and eval = 8 and isPv = False and ply = 0,
      THEN conjunct2, THEN conjunct1, THEN mp, OF notI, OF FalseE]
  from s2 obtain tb' where st: "store exampleConsts hashS1 7 8 False BOUND_UPPER 0 (- 17) 0 tableS1
               = Some (tableS1\<lparr>table := Some tb'\<rparr>)"
    and others: "\<forall>b < length ((replicate 16 (replicate 5 zeroEntry))
                    [13 := (replicate 5 zeroEntry)[0 := entryS1]]).
         length (tb' ! b) = length ((replicate 16 (replicate 5 zeroEntry))
                    [13 := (replicate 5 zeroEntry)[0 := entryS1]] ! b)
         \<and> (\<forall>i < length ((replicate 16 (replicate 5 zeroEntry))
                    [13 := (replicate 5 zeroEntry)[0 := entryS1]] ! b).
               (b, i) \<noteq> (firstEntry tableS1 hashS1, 0)
               \<longrightarrow> tb' ! b ! i = (replicate 16 (replicate 5 zeroEntry))
                    [13 := (replicate 5 zeroEntry)[0 := entryS1]] ! b ! i)"
    and f: "value16 (tb' ! firstEntry tableS1 hashS1 ! 0)
              = word_of_int (searchValueToStoredValue exampleConsts 7 0)"
      "eval16 (tb' ! firstEntry tableS1 hashS1 ! 0) = word_of_int 8"
      "pvBoundBest16 (tb' ! firstEntry tableS1 hashS1 ! 0)
         = push_bit 15 (of_bool False) OR push_bit 13 (bound_code BOUND_UPPER) OR word_of_int 231"
      "depth8 (tb' ! firstEntry tableS1 hashS1 ! 0) = word_of_int (- 17 - DEPTH_LOWER_BOUND exampleConsts)"
      "generation8 (tb' ! firstEntry tableS1 hashS1 ! 0) = generation tableS1"
    by blast
  have o: "tb' ! 13 ! 1 = zeroEntry"
    using others [THEN spec, of 13, THEN mp, THEN conjunct2, THEN spec, of 1]
    by (simp add: firstEntry_S1)
  have g: "value16 (tb' ! 13 ! 0) = 7" "eval16 (tb' ! 13 ! 0) = 8"
      "pvBoundBest16 (tb' ! 13 ! 0) = 8423" "depth8 (tb' ! 13 ! 0) = 3"
      "generation8 (tb' ! 13 ! 0) = 0"
    using f by (simp_all add: firstEntry_S1 c)
  show ?thesis
    using s1 st g o by (intro conjI exI [of _ tb']) (rule wf_tableS1 | assumption)+
qed

text \<open>
  C6 as stated fails when the record to be written is the record the slot already holds: on
  the table left by S1, the store of S1 repeated (bound EXACT, so the condition is false)
  writes the slot and leaves it, and the whole table, as it was.
\<close>

theorem store_overwrite_rule_counterexample:
  "\<not> storeSkips exampleConsts BOUND_EXACT (ucast hashS1) (- 15) entryS1
   \<and> replaceIndex exampleConsts hashS1 tableS1 ((replicate 5 zeroEntry)[0 := entryS1]) = 0
   \<and> store exampleConsts hashS1 100 50 True BOUND_EXACT 231 (- 15) 0 tableS1 = Some tableS1"
proof -
  have ns: "\<not> storeSkips exampleConsts BOUND_EXACT (ucast hashS1) (- 15) entryS1"
    by (simp add: storeSkips_def)
  have new: "newEntry exampleConsts 0 0xCAFEBABE 100 50 True BOUND_EXACT 231 (- 15) 0 = entryS1"
    by (simp add: entryS1_def)
  have s: "store exampleConsts hashS1 100 50 True BOUND_EXACT 231 (- 15) 0 tableS1 = Some tableS1"
    unfolding store_unfold [OF table_tableS1 refl refl] firstEntry_S1
    by (simp add: replaceIndex_S1 storeSkips_def ucast_S1 key_entryS1)
       (simp add: exampleConsts_def tableS1_def new [unfolded exampleConsts_def])
  show ?thesis by (intro conjI) (rule ns replaceIndex_S1 s)+
qed

text \<open>
  C5 (as amended).  When \<^verbatim>\<open>store\<close> does write (the replacement rule does not skip) and the
  move is not replaced by the slot's previous best move, the written entry satisfies
  \<open>key32 ^ data[0] ^ data[1] = uint32_t(hashKey)\<close> and a following \<^verbatim>\<open>probe\<close> of the same key
  at the same ply returns true and reports the stored value, eval, pv flag, bound, move and
  depth.  The value round trip is that of the two conversion functions of \<^verbatim>\<open>types.h\<close>.
\<close>

theorem store_then_probe:
  assumes wf: "wf_table K t" and tb: "table t = Some tb"
    and entry: "entry = tb ! firstEntry t hashKey"
    and r: "r = replaceIndex K hashKey t entry"
    and noskip: "\<not> storeSkips K bound (ucast hashKey) depth (entry ! r)"
    and keep: "\<not> (move = Pos_NONE K \<and> ucast hashKey = key (entry ! r))"
    and ev: "- 32768 \<le> eval" "eval < 32768"
    and mv: "0 \<le> move" "move < 1024"
    and dp: "DEPTH_LOWER_BOUND K < depth" "depth < DEPTH_LOWER_BOUND K + 256"
    and sv: "- 32768 \<le> searchValueToStoredValue K val ply"
            "searchValueToStoredValue K val ply < 32768"
    and inv: "storedValueToSearchValue K (searchValueToStoredValue K val ply) ply = val"
  shows "\<exists>t' tb' t''. store K hashKey val eval isPv bound move depth ply t = Some t'
      \<and> table t' = Some tb'
      \<and> key32 (tb' ! firstEntry t hashKey ! r) XOR data0 (tb' ! firstEntry t hashKey ! r)
            XOR data1 (tb' ! firstEntry t hashKey ! r) = ucast hashKey
      \<and> probe K hashKey ply t' =
          Some (Some \<lparr>ttValue = val, ttEval = eval, ttIsPv = isPv, ttBound = bound,
                       ttMove = move, ttDepth = depth\<rparr>, t'')"
proof -
  let ?b = "firstEntry t hashKey" and ?k = "ucast hashKey :: 32 word"
  let ?n = "ENTRIES_PER_BUCKET K"
  define new where "new = newEntry K (generation t) ?k val eval isPv bound move depth ply"
  define tb' where "tb' = tb[?b := entry[r := new]]"
  define t' where "t' = t\<lparr>table := Some tb'\<rparr>"
  from wf tb have nb: "0 < numBuckets t" "length tb = numBuckets t" and epb: "0 < ?n"
    and lens: "\<forall>b \<in> set tb. length b = ?n"
    by (auto simp: wf_table_def list_all_iff)
  have b: "?b < length tb" using firstEntry_less [OF nb(1)] nb(2) by simp
  then have len_entry: "length entry = ?n" using lens entry by simp
  have rlt: "r < ?n" and first: "\<forall>j<r. key (entry ! j) \<noteq> ?k"
    using replaceIndex_props(1,2) [OF epb r] by blast+
  have st: "store K hashKey val eval isPv bound move depth ply t = Some t'"
    using noskip keep tb entry r
    by (auto simp: store_def Let_def t'_def tb'_def new_def)
  have fe: "firstEntry t' hashKey = ?b" by (simp add: firstEntry_def t'_def)
  have bucket: "tb' ! ?b = entry[r := new]" using b by (simp add: tb'_def)
  have slot: "tb' ! ?b ! r = new" using rlt len_entry by (simp add: bucket)
  have knew: "key new = ?k" by (simp add: new_def)
  have "\<forall>j<r. key (entry[r := new] ! j) \<noteq> ?k" using first by simp
  moreover have "key (entry[r := new] ! r) = ?k" using rlt len_entry knew by simp
  ultimately have pl: "probeLoop (entry[r := new]) ?k [0..<?n] = Some r"
    using rlt by (intro probeLoop_upt_SomeI) auto
  have nth_r: "entry[r := new] ! r = new" using rlt len_entry by simp
  have f1: "sint (value16 new) = searchValueToStoredValue K val ply"
    using sv by (simp add: new_def newEntry_def Let_def sint16_of_int)
  have f2: "sint (eval16 new) = eval"
    using ev by (simp add: new_def newEntry_def Let_def sint16_of_int)
  have f3: "(drop_bit 15 (pvBoundBest16 new) \<noteq> 0) = isPv"
    using pv_decode_isPv [OF mv] by (simp add: new_def newEntry_def Let_def)
  have f4: "bound_of (drop_bit 13 (pvBoundBest16 new) AND 3) = bound"
    using pv_decode_bound [OF mv] by (simp add: new_def newEntry_def Let_def)
  have f5: "uint (pvBoundBest16 new AND 0x3ff) = move"
    using pv_decode_move [OF mv] by (simp add: new_def newEntry_def Let_def)
  have f6: "uint (depth8 new) + DEPTH_LOWER_BOUND K = depth"
  proof -
    have "depth8 new = word_of_int (depth - DEPTH_LOWER_BOUND K)"
      by (simp add: new_def newEntry_def Let_def del: of_int_diff)
    moreover have "uint (word_of_int (depth - DEPTH_LOWER_BOUND K) :: 8 word)
        = depth - DEPTH_LOWER_BOUND K"
      using dp by (intro uint8_of_int) simp_all
    ultimately show ?thesis by simp
  qed
  have pr: "\<exists>t''. probe K hashKey ply t' =
          Some (Some \<lparr>ttValue = val, ttEval = eval, ttIsPv = isPv, ttBound = bound,
                       ttMove = move, ttDepth = depth\<rparr>, t'')"
    unfolding probe_def fe
    using f3 f4 f5 f6
    by (simp add: t'_def bucket pl Let_def nth_r f1 f2 inv del: One_nat_def)
  have "key32 (tb' ! ?b ! r) XOR data0 (tb' ! ?b ! r) XOR data1 (tb' ! ?b ! r) = ?k"
    using knew by (simp add: slot key_def)
  with st pr show ?thesis by (auto simp: t'_def)
qed


theorem store_then_probe_witness:
  "wf_table exampleConsts emptyTable1KB
   \<and> \<not> storeSkips exampleConsts BOUND_EXACT (ucast hashS1) (- 15) (replicate 5 zeroEntry ! 0)
   \<and> (\<exists>t' tb' t''. store exampleConsts hashS1 100 50 True BOUND_EXACT 231 (- 15) 0 emptyTable1KB
           = Some t'
      \<and> table t' = Some tb'
      \<and> key32 (tb' ! firstEntry emptyTable1KB hashS1 ! 0)
            XOR data0 (tb' ! firstEntry emptyTable1KB hashS1 ! 0)
            XOR data1 (tb' ! firstEntry emptyTable1KB hashS1 ! 0) = ucast hashS1
      \<and> probe exampleConsts hashS1 0 t' =
          Some (Some \<lparr>ttValue = 100, ttEval = 50, ttIsPv = True, ttBound = BOUND_EXACT,
                       ttMove = 231, ttDepth = - 15\<rparr>, t''))"
proof -
  have wf: "wf_table exampleConsts emptyTable1KB"
    by (simp add: wf_table_def emptyTable1KB_def exampleConsts_def list_all_iff)
  have entry: "replicate 5 zeroEntry
      = replicate 16 (replicate 5 zeroEntry) ! firstEntry emptyTable1KB hashS1"
    by (simp add: firstEntry_S1)
  have r: "0 = replaceIndex exampleConsts hashS1 emptyTable1KB (replicate 5 zeroEntry)"
    by (simp add: replaceIndex_def epb_example upt5 ucast_S1 key_zeroEntry)
  have noskip: "\<not> storeSkips exampleConsts BOUND_EXACT (ucast hashS1) (- 15)
      (replicate 5 zeroEntry ! 0)"
    by (simp add: storeSkips_def)
  have keep: "\<not> (231 = Pos_NONE exampleConsts \<and> ucast hashS1 = key (replicate 5 zeroEntry ! 0))"
    by (simp add: exampleConsts_def)
  have c: "DEPTH_LOWER_BOUND exampleConsts = - 20"
    "searchValueToStoredValue exampleConsts 100 0 = 100"
    "storedValueToSearchValue exampleConsts 100 0 = 100"
    by (simp_all add: exampleConsts_def)
  from store_then_probe [OF wf table_emptyTable1KB entry r noskip keep,
      where eval = 50 and val = 100 and ply = 0 and isPv = True]
  have "\<exists>t' tb' t''. store exampleConsts hashS1 100 50 True BOUND_EXACT 231 (- 15) 0 emptyTable1KB
           = Some t'
      \<and> table t' = Some tb'
      \<and> key32 (tb' ! firstEntry emptyTable1KB hashS1 ! 0)
            XOR data0 (tb' ! firstEntry emptyTable1KB hashS1 ! 0)
            XOR data1 (tb' ! firstEntry emptyTable1KB hashS1 ! 0) = ucast hashS1
      \<and> probe exampleConsts hashS1 0 t' =
          Some (Some \<lparr>ttValue = 100, ttEval = 50, ttIsPv = True, ttBound = BOUND_EXACT,
                       ttMove = 231, ttDepth = - 15\<rparr>, t'')"
    by (simp add: c)
  with wf noskip show ?thesis by blast
qed

text \<open>
  C5 as stated fails on scenario S2: on the table left by S1, a store of the same key with
  bound UPPER, depth \<open>DEPTH_LOWER_BOUND + 2\<close> and no move is skipped, and the probe that
  follows reports the record of S1 (bound EXACT, depth \<open>DEPTH_LOWER_BOUND + 5\<close>, move 231).
\<close>

theorem store_then_probe_counterexample:
  "store exampleConsts hashS1 100 50 True BOUND_UPPER 0 (- 18) 0 tableS1 = Some tableS1
   \<and> map_option fst (probe exampleConsts hashS1 0 tableS1)
       = Some (Some \<lparr>ttValue = 100, ttEval = 50, ttIsPv = True, ttBound = BOUND_EXACT,
                       ttMove = 231, ttDepth = - 15\<rparr>)"
proof -
  have r: "replaceIndex exampleConsts hashS1 tableS1 ((replicate 5 zeroEntry)[0 := entryS1]) = 0"
    by (simp add: replaceIndex_def epb_example upt5 ucast_S1 key_entryS1)
  have pl: "probeLoop ((replicate 5 zeroEntry)[0 := entryS1]) 0xCAFEBABE [0..<5] = Some 0"
    by (simp add: upt5 key_entryS1)
  have s: "store exampleConsts hashS1 100 50 True BOUND_UPPER 0 (- 18) 0 tableS1 = Some tableS1"
    unfolding store_unfold [OF table_tableS1 refl refl] firstEntry_S1
    by (simp add: r storeSkips_def ucast_S1 key_entryS1 depth_entryS1)
       (simp add: exampleConsts_def)
  have hit: "probeLoop ((replicate 16 (replicate 5 zeroEntry))
                  [13 := (replicate 5 zeroEntry)[0 := entryS1]] ! firstEntry tableS1 hashS1)
               (ucast hashS1) [0..<ENTRIES_PER_BUCKET exampleConsts] = Some 0"
    by (simp add: firstEntry_S1 ucast_S1 epb_example pl)
  have p: "map_option fst (probe exampleConsts hashS1 0 tableS1)
       = Some (Some \<lparr>ttValue = 100, ttEval = 50, ttIsPv = True, ttBound = BOUND_EXACT,
                       ttMove = 231, ttDepth = - 15\<rparr>)"
    unfolding probe_hit [OF table_tableS1 hit refl] firstEntry_S1
    by (simp add: entryS1_def newEntry_sel bound_of_def) (simp add: exampleConsts_def)
  from s p show ?thesis by simp
qed



section \<open>Properties of the weight registry and the loaders\<close>

subsection \<open>The registry\<close>

lemma foldr_max_ge: "x \<in> set xs \<Longrightarrow> x \<le> foldr max xs (0::nat)"
  by (induction xs) auto

lemma newAddr_fresh: "newAddr os \<notin> fst ` set os"
proof
  assume "newAddr os \<in> fst ` set os"
  then have "newAddr os \<in> set (map fst os)" by simp
  then have "newAddr os \<le> foldr max (map fst os) 0" by (rule foldr_max_ge)
  then show False by (simp add: newAddr_def)
qed

lemma pathEq_refl [simp]: "pathEq p p"
  by (simp add: pathEq_def)

lemma pathEq_sym: "pathEq p q \<longleftrightarrow> pathEq q p"
  by (auto simp: pathEq_def)

lemma pathEq_trans: "pathEq p q \<Longrightarrow> pathEq q r \<Longrightarrow> pathEq p r"
  by (simp add: pathEq_def)

lemma findLoaded_None:
  "findLoaded path ws = None \<longleftrightarrow> (\<forall>e \<in> set ws. \<not> pathEq (filepath e) path)"
  by (induction ws) auto

lemma findLoaded_append_new:
  "\<forall>e \<in> set ws. \<not> pathEq (filepath e) path' \<Longrightarrow> pathEq path path' \<Longrightarrow>
   findLoaded path' (ws @ [\<lparr>filepath = path, weight = a, refCount = c\<rparr>])
     = Some (a, ws @ [\<lparr>filepath = path, weight = a, refCount = (c + 1) mod 2 ^ 64\<rparr>])"
  by (induction ws) auto

lemma findLoaded_SomeD:
  "findLoaded path ws = Some (p, ws') \<Longrightarrow>
   (\<exists>e \<in> set ws. pathEq (filepath e) path \<and> weight e = p)
   \<and> map filepath ws' = map filepath ws \<and> map weight ws' = map weight ws"
  by (induction ws arbitrary: ws') (auto split: if_splits)

lemma unloadLoop_append_last:
  "a \<notin> weight ` set ws \<Longrightarrow>
   unloadLoop a (ws @ [\<lparr>filepath = path, weight = a, refCount = c\<rparr>])
     = (if (c + 2 ^ 64 - 1) mod 2 ^ 64 = 0 then (ws, Some a)
        else (ws @ [\<lparr>filepath = path, weight = a, refCount = (c + 2 ^ 64 - 1) mod 2 ^ 64\<rparr>], None))"
  by (induction ws) auto

lemma filter_obj_fresh:
  "a \<notin> fst ` set os \<Longrightarrow> filter (\<lambda>(b, w). b \<noteq> a) os = os"
  by (induction os) auto

lemma map_pair_zip: "map (\<lambda>e. (f e, g e)) xs = zip (map f xs) (map g xs)"
  by (induction xs) simp_all

lemma map_pair_cong:
  "map f xs = map f ys \<Longrightarrow> map g xs = map g ys
   \<Longrightarrow> map (\<lambda>e. (f e, g e)) xs = map (\<lambda>e. (f e, g e)) ys"
  by (simp only: map_pair_zip)

lemma load_found:
  "findLoaded path (pool reg) = Some (p, pool') \<Longrightarrow>
   loadWeightFromFile fs load nb path (reg, l) = Returns (Some p) (reg\<lparr>pool := pool'\<rparr>, l)"
  by (simp add: loadWeightFromFile_def)

lemma load_fresh_Some:
  assumes "findLoaded path (pool reg) = None"
    and "loadWeightFromFile fs load nb path (reg, l) = Returns (Some a) (reg1, l1)"
  shows "\<exists>w. a = newAddr (objs reg)
     \<and> reg1 = reg\<lparr>pool := pool reg @ [\<lparr>filepath = path, weight = a, refCount = 1\<rparr>],
                         objs := (a, w) # objs reg\<rparr>"
proof (cases "fs path nb")
  case None
  with assms show ?thesis by (simp add: loadWeightFromFile_def)
next
  case (Some content)
  show ?thesis
  proof (cases "load l \<lparr>buf = content, eofbit = False, failbit = False\<rparr>")
    case (Returns r l')
    show ?thesis
    proof (cases r)
      case None
      with assms Some Returns show ?thesis by (simp add: loadWeightFromFile_def)
    next
      case (Some w)
      with assms \<open>fs path nb = Some content\<close> Returns show ?thesis
        by (simp add: loadWeightFromFile_def Let_def) blast
    qed
  next
    case (Throws e l')
    with assms Some show ?thesis by (simp add: loadWeightFromFile_def)
  next
    case Undefined
    with assms Some show ?thesis by (simp add: loadWeightFromFile_def)
  qed
qed

lemma load_fresh_None:
  assumes "findLoaded path (pool reg) = None"
    and "loadWeightFromFile fs load nb path (reg, l) = Returns None (reg1, l1)
         \<or> loadWeightFromFile fs load nb path (reg, l) = Throws e (reg1, l1)"
  shows "reg1 = reg"
  using assms
  by (auto simp: loadWeightFromFile_def Let_def split: option.splits outcome.splits)


lemma wf_emptyRegistry: "wf_registry emptyRegistry"
  by (simp add: wf_registry_def emptyRegistry_def)

lemma wf_load:
  assumes wf: "wf_registry reg"
    and ld: "loadWeightFromFile fs load nb path (reg, l) = Returns r (reg', l')"
  shows "wf_registry reg'"
proof (cases "findLoaded path (pool reg)")
  case None
  show ?thesis
  proof (cases r)
    case None
    have "reg' = reg"
      using \<open>findLoaded path (pool reg) = None\<close> ld [unfolded None]
      by (rule load_fresh_None [OF _ disjI1])
    with wf show ?thesis by simp
  next
    case (Some a)
    from load_fresh_Some [OF \<open>findLoaded path (pool reg) = None\<close> ld [unfolded Some]]
    obtain w where a: "a = newAddr (objs reg)"
      and reg': "reg' = reg\<lparr>pool := pool reg @ [\<lparr>filepath = path, weight = a, refCount = 1\<rparr>],
                         objs := (a, w) # objs reg\<rparr>"
      by blast
    have afresh: "a \<notin> fst ` set (objs reg)" unfolding a by (rule newAddr_fresh)
    have livepool: "\<forall>e \<in> set (pool reg). weight e \<in> fst ` set (objs reg)"
      using wf by (simp add: wf_registry_def list_all_iff)
    then have anot: "a \<notin> weight ` set (pool reg)" using afresh by auto
    have "\<forall>e \<in> set (pool reg). \<not> pathEq (filepath e) path"
      using \<open>findLoaded path (pool reg) = None\<close> by (simp add: findLoaded_None)
    then have pnot: "pathParts path \<notin> (\<lambda>e. pathParts (filepath e)) ` set (pool reg)"
      by (auto simp: pathEq_def)
    show ?thesis
      using wf afresh anot pnot livepool
      by (auto simp: wf_registry_def reg' list_all_iff)
  qed
next
  case (Some x)
  obtain p ws' where x: "x = (p, ws')" by (cases x)
  from ld Some x have reg': "reg' = reg\<lparr>pool := ws'\<rparr>" by (auto simp: load_found)
  from findLoaded_SomeD [OF Some [unfolded x]]
  have mf: "map filepath ws' = map filepath (pool reg)"
    and mw: "map weight ws' = map weight (pool reg)" by simp_all
  have "set (map weight ws') = set (map weight (pool reg))" by (simp only: mw)
  then have img: "weight ` set ws' = weight ` set (pool reg)" by simp
  have lv: "\<forall>e \<in> set (pool reg). weight e \<in> fst ` set (objs reg)"
    using wf by (simp add: wf_registry_def list_all_iff)
  have "\<forall>e \<in> set ws'. weight e \<in> fst ` set (objs reg)"
  proof
    fix e assume "e \<in> set ws'"
    then have "weight e \<in> weight ` set (pool reg)" unfolding img [symmetric] by (rule imageI)
    then show "weight e \<in> fst ` set (objs reg)" using lv by auto
  qed
  moreover have "map (\<lambda>e. pathParts (filepath e)) ws' = map (\<lambda>e. pathParts (filepath e)) (pool reg)"
    using arg_cong [OF mf, of "map pathParts"] by (simp add: comp_def)
  ultimately show ?thesis
    using wf mw by (simp add: wf_registry_def reg' list_all_iff)
qed

lemma unloadLoop_props:
  "unloadLoop p ws = (ws', d) \<Longrightarrow> distinct (map weight ws) \<Longrightarrow>
   (d = None \<and> map weight ws' = map weight ws \<and> map filepath ws' = map filepath ws)
   \<or> (d = Some p \<and> ws' = filter (\<lambda>e. weight e \<noteq> p) ws)"
proof (induction ws arbitrary: ws' d)
  case Nil
  then show ?case by simp
next
  case (Cons w ws)
  show ?case
  proof (cases "weight w = p")
    case True
    with Cons.prems(2) have "p \<notin> weight ` set ws" by simp
    then have "\<forall>e \<in> set ws. weight e \<noteq> p" by (metis imageI)
    then have f: "filter (\<lambda>e. weight e \<noteq> p) ws = ws" by (simp add: filter_id_conv)
    show ?thesis
    proof (cases "(refCount w + 2 ^ 64 - 1) mod 2 ^ 64 = 0")
      case z: True
      with Cons.prems(1) True have "ws' = ws" "d = Some p" by simp_all
      with True f show ?thesis by simp
    next
      case nz: False
      with Cons.prems(1) True
      have "ws' = w\<lparr>refCount := (refCount w + 2 ^ 64 - 1) mod 2 ^ 64\<rparr> # ws" "d = None"
        by simp_all
      then show ?thesis by simp
    qed
  next
    case False
    obtain ws2 d2 where r: "unloadLoop p ws = (ws2, d2)" by (cases "unloadLoop p ws")
    with Cons.prems False have eq: "ws' = w # ws2" "d = d2" by simp_all
    from Cons.prems(2) have "distinct (map weight ws)" by simp
    from Cons.IH [OF r this] show ?thesis
      using False unfolding eq by (elim disjE conjE) simp_all
  qed
qed

lemma wf_unload:
  assumes wf: "wf_registry reg"
  shows "wf_registry (unloadWeight p reg)"
proof -
  obtain ws' d where r: "unloadLoop p (pool reg) = (ws', d)" by (cases "unloadLoop p (pool reg)")
  from wf have dw: "distinct (map weight (pool reg))"
    and df: "distinct (map (\<lambda>e. pathParts (filepath e)) (pool reg))"
    and dobj: "distinct (map fst (objs reg))"
    and lv: "\<forall>e \<in> set (pool reg). weight e \<in> fst ` set (objs reg)"
    by (simp_all add: wf_registry_def list_all_iff)
  from unloadLoop_props [OF r dw] show ?thesis
  proof (elim disjE conjE)
    assume d: "d = None" and mw: "map weight ws' = map weight (pool reg)"
      and mf: "map filepath ws' = map filepath (pool reg)"
    have "set (map weight ws') = set (map weight (pool reg))" by (simp only: mw)
    then have img: "weight ` set ws' = weight ` set (pool reg)" by simp
    have "\<forall>e \<in> set ws'. weight e \<in> fst ` set (objs reg)"
    proof
      fix e assume "e \<in> set ws'"
      then have "weight e \<in> weight ` set (pool reg)" unfolding img [symmetric] by (rule imageI)
      then show "weight e \<in> fst ` set (objs reg)" using lv by auto
    qed
    moreover have "map (\<lambda>e. pathParts (filepath e)) ws' = map (\<lambda>e. pathParts (filepath e)) (pool reg)"
      using arg_cong [OF mf, of "map pathParts"] by (simp add: comp_def)
    ultimately show ?thesis using dw df dobj d mw
      by (simp add: wf_registry_def unloadWeight_def r list_all_iff)
  next
    assume d: "d = Some p" and ws': "ws' = filter (\<lambda>e. weight e \<noteq> p) (pool reg)"
    have "\<forall>e \<in> set ws'. weight e \<in> fst ` set (filter (\<lambda>(b, w). b \<noteq> p) (objs reg))"
    proof
      fix e assume e: "e \<in> set ws'"
      then have ne: "weight e \<noteq> p" and "e \<in> set (pool reg)" by (simp_all add: ws')
      with lv obtain w where "(weight e, w) \<in> set (objs reg)" by force
      with ne have "(weight e, w) \<in> set (filter (\<lambda>(b, w). b \<noteq> p) (objs reg))" by simp
      then show "weight e \<in> fst ` set (filter (\<lambda>(b, w). b \<noteq> p) (objs reg))"
        by (rule image_eqI [rotated]) simp
    qed
    moreover have "distinct (map fst (filter (\<lambda>(b, w). b \<noteq> p) (objs reg)))"
      using dobj by (rule distinct_map_filter)
    moreover have "distinct (map weight ws')" "distinct (map (\<lambda>e. pathParts (filepath e)) ws')"
      unfolding ws' using dw df by (simp_all add: distinct_map_filter)
    ultimately show ?thesis using d
      by (simp add: wf_registry_def unloadWeight_def r list_all_iff)
  qed
qed

text \<open>
  C7.  After a first, successful load of a path that the pool does not hold yet: a second
  load of that path, or of any path equal to it, returns the same pointer and leaves the
  loader as it is (whatever loader is passed, it is not invoked), and the pool then holds
  exactly one entry for the path, with count 2; one \<^verbatim>\<open>unloadWeight\<close> of the pointer leaves the
  entry in the pool (count 1) and the weight alive; the second removes the entry and destroys
  the weight; and a load of a path that is not equal to it yields another pointer and another
  pool entry.  Equal and distinct are those of \<^verbatim>\<open>std::filesystem::path\<close>.
\<close>

theorem registry_sharing:
  assumes wf: "wf_registry reg"
    and fresh: "\<forall>e \<in> set (pool reg). \<not> pathEq (filepath e) path"
    and first: "loadWeightFromFile fs load nb path (reg, l) = Returns (Some a) (reg1, l1)"
    and reg2: "reg2 = reg1\<lparr>pool := pool reg @ [\<lparr>filepath = path, weight = a, refCount = 2\<rparr>]\<rparr>"
  shows "(\<forall>path'. pathEq path path'
            \<longrightarrow> loadWeightFromFile fs' load' nb' path' (reg1, l') = Returns (Some a) (reg2, l'))
    \<and> filter (\<lambda>e. pathEq (filepath e) path) (pool reg2)
        = [\<lparr>filepath = path, weight = a, refCount = 2\<rparr>]
    \<and> unloadWeight a reg2 = reg1
    \<and> filter (\<lambda>e. pathEq (filepath e) path) (pool reg1)
        = [\<lparr>filepath = path, weight = a, refCount = 1\<rparr>]
    \<and> live reg1 a
    \<and> unloadWeight a reg1 = reg
    \<and> \<not> live reg a
    \<and> (\<forall>path2 b reg3 l2 l3. \<not> pathEq path2 path
          \<longrightarrow> loadWeightFromFile fs' load' nb' path2 (reg1, l2) = Returns (Some b) (reg3, l3)
          \<longrightarrow> b \<noteq> a
              \<and> (\<exists>e1 \<in> set (pool reg3). \<exists>e2 \<in> set (pool reg3).
                    filepath e1 = path \<and> weight e1 = a
                  \<and> pathEq (filepath e2) path2 \<and> weight e2 = b))"
proof -
  have nf: "findLoaded path (pool reg) = None" using fresh by (simp add: findLoaded_None)
  from load_fresh_Some [OF nf first] obtain w where
    a: "a = newAddr (objs reg)"
    and reg1: "reg1 = reg\<lparr>pool := pool reg @ [\<lparr>filepath = path, weight = a, refCount = 1\<rparr>],
                         objs := (a, w) # objs reg\<rparr>"
    by blast
  have afresh: "a \<notin> fst ` set (objs reg)" unfolding a by (rule newAddr_fresh)
  have livepool: "\<forall>e \<in> set (pool reg). weight e \<in> fst ` set (objs reg)"
    using wf by (simp add: wf_registry_def list_all_iff)
  then have anot: "a \<notin> weight ` set (pool reg)" using afresh by auto
  have nopath: "filter (\<lambda>e. pathEq (filepath e) path) (pool reg) = []"
    using fresh by (auto simp: filter_empty_conv)
  have c1: "\<forall>path'. pathEq path path'
            \<longrightarrow> loadWeightFromFile fs' load' nb' path' (reg1, l') = Returns (Some a) (reg2, l')"
  proof (intro allI impI)
    fix path' assume eq: "pathEq path path'"
    have "\<forall>e \<in> set (pool reg). \<not> pathEq (filepath e) path'"
    proof
      fix e assume e: "e \<in> set (pool reg)"
      show "\<not> pathEq (filepath e) path'"
      proof
        assume "pathEq (filepath e) path'"
        moreover have "pathEq path' path" using eq by (simp add: pathEq_sym)
        ultimately have "pathEq (filepath e) path" by (rule pathEq_trans)
        with fresh e show False by simp
      qed
    qed
    from findLoaded_append_new [OF this eq, of a 1]
    show "loadWeightFromFile fs' load' nb' path' (reg1, l') = Returns (Some a) (reg2, l')"
      by (simp add: loadWeightFromFile_def reg1 reg2)
  qed
  have c2: "filter (\<lambda>e. pathEq (filepath e) path) (pool reg2)
      = [\<lparr>filepath = path, weight = a, refCount = 2\<rparr>]"
    using nopath by (simp add: reg2)
  have c3: "unloadWeight a reg2 = reg1"
    using unloadLoop_append_last [OF anot, of path 2]
    by (simp add: unloadWeight_def reg2 reg1)
  have c4: "filter (\<lambda>e. pathEq (filepath e) path) (pool reg1)
      = [\<lparr>filepath = path, weight = a, refCount = 1\<rparr>]"
    using nopath by (simp add: reg1)
  have c5: "live reg1 a" by (simp add: live_def reg1)
  have c6: "unloadWeight a reg1 = reg"
    using unloadLoop_append_last [OF anot, of path 1] filter_obj_fresh [OF afresh]
    by (simp add: unloadWeight_def reg1)
  have c7: "\<not> live reg a" using afresh by (simp add: live_def)
  have c8: "b \<noteq> a \<and> (\<exists>e1 \<in> set (pool reg3). \<exists>e2 \<in> set (pool reg3).
                    filepath e1 = path \<and> weight e1 = a
                  \<and> pathEq (filepath e2) path2 \<and> weight e2 = b)"
    if ne: "\<not> pathEq path2 path"
      and ld: "loadWeightFromFile fs' load' nb' path2 (reg1, l2) = Returns (Some b) (reg3, l3)"
    for path2 b reg3 l2 l3
  proof (cases "findLoaded path2 (pool reg1)")
    case None
    from load_fresh_Some [OF None ld] have b: "b = newAddr (objs reg1)"
      and r3: "pool reg3 = pool reg1 @ [\<lparr>filepath = path2, weight = b, refCount = 1\<rparr>]"
      by auto
    have "b \<notin> fst ` set (objs reg1)" unfolding b by (rule newAddr_fresh)
    then have ba: "b \<noteq> a" by (auto simp: reg1)
    have m1: "\<lparr>filepath = path, weight = a, refCount = 1\<rparr> \<in> set (pool reg3)"
      by (simp add: r3 reg1)
    have m2: "\<lparr>filepath = path2, weight = b, refCount = 1\<rparr> \<in> set (pool reg3)"
      by (simp add: r3)
    show ?thesis
      using ba by (intro conjI bexI [OF _ m1] bexI [OF _ m2]) simp_all
  next
    case (Some x)
    obtain p ws' where x: "x = (p, ws')" by (cases x)
    with Some ld have b: "b = p" and r3: "pool reg3 = ws'"
      by (auto simp: load_found)
    from findLoaded_SomeD [OF Some [unfolded x]]
    obtain e where e: "e \<in> set (pool reg1)" "pathEq (filepath e) path2" "weight e = b"
      and mf: "map filepath ws' = map filepath (pool reg1)"
      and mw: "map weight ws' = map weight (pool reg1)"
      unfolding b by blast
    have "filepath e \<noteq> path"
    proof
      assume "filepath e = path"
      with e(2) have "pathEq path2 path" by (simp add: pathEq_sym)
      with ne show False by simp
    qed
    with e(1) have "e \<in> set (pool reg)" by (auto simp: reg1)
    then have "weight e \<in> weight ` set (pool reg)" by (rule imageI)
    then have ba: "b \<noteq> a" using anot e(3) by metis
    have zipeq: "map (\<lambda>e. (filepath e, weight e)) ws' = map (\<lambda>e. (filepath e, weight e)) (pool reg1)"
      using mf mw by (rule map_pair_cong)
    have "(path, a) \<in> (\<lambda>e. (filepath e, weight e)) ` set (pool reg1)"
      by (simp add: reg1)
    moreover have "(filepath e, b) \<in> (\<lambda>e. (filepath e, weight e)) ` set (pool reg1)"
      using e(1,3) by (metis (mono_tags, lifting) image_eqI)
    moreover have "(\<lambda>e. (filepath e, weight e)) ` set ws' = (\<lambda>e. (filepath e, weight e)) ` set (pool reg1)"
      using zipeq by (metis set_map)
    ultimately obtain e1 e2 where "e1 \<in> set ws'" "(path, a) = (filepath e1, weight e1)"
      "e2 \<in> set ws'" "(filepath e, b) = (filepath e2, weight e2)"
      by (metis (no_types, lifting) imageE)
    then show ?thesis using ba e(2) unfolding r3
      by (intro conjI bexI [of _ e1] bexI [of _ e2]) auto
  qed
  have c8': "\<forall>path2 b reg3 l2 l3. \<not> pathEq path2 path
          \<longrightarrow> loadWeightFromFile fs' load' nb' path2 (reg1, l2) = Returns (Some b) (reg3, l3)
          \<longrightarrow> b \<noteq> a
              \<and> (\<exists>e1 \<in> set (pool reg3). \<exists>e2 \<in> set (pool reg3).
                    filepath e1 = path \<and> weight e1 = a
                  \<and> pathEq (filepath e2) path2 \<and> weight e2 = b)"
    by (intro allI impI) (rule c8)
  show ?thesis
    by (intro conjI) (rule c1 c2 c3 c4 c5 c6 c7 c8')+
qed

theorem registry_sharing_witness:
  "wf_registry regBlack
   \<and> loadWeightFromFile exampleFs countingLoader True ''d/white.bin'' (regBlack, 0)
       = Returns (Some 2) (regBoth 1, 1)
   \<and> pathEq ''d/white.bin'' ''d//white.bin''
   \<and> loadWeightFromFile exampleFs countingLoader True ''d//white.bin'' (regBoth 1, 1)
       = Returns (Some 2) (regBoth 2, 1)
   \<and> unloadWeight 2 (regBoth 2) = regBoth 1 \<and> live (regBoth 1) 2
   \<and> unloadWeight 2 (regBoth 1) = regBlack \<and> \<not> live regBlack 2
   \<and> \<not> pathEq ''black.bin'' ''d/white.bin''
   \<and> loadWeightFromFile exampleFs countingLoader True ''black.bin'' (regBoth 1, 1)
       = Returns (Some 1) (regBoth 1\<lparr>pool := [\<lparr>filepath = ''black.bin'', weight = 1, refCount = 2\<rparr>,
                        \<lparr>filepath = ''d/white.bin'', weight = 2, refCount = 1\<rparr>]\<rparr>, 1)
   \<and> (1::nat) \<noteq> 2"
proof -
  have wf: "wf_registry regBlack"
    by (simp add: wf_registry_def regBlack_def)
  have ne: "\<not> pathEq ''black.bin'' ''d/white.bin''"
    by (simp add: pathEq_def pathParts_def)
  have fresh: "\<forall>e \<in> set (pool regBlack). \<not> pathEq (filepath e) ''d/white.bin''"
    using ne by (simp add: regBlack_def)
  have first: "loadWeightFromFile exampleFs countingLoader True ''d/white.bin'' (regBlack, 0)
       = Returns (Some 2) (regBoth 1, 1)"
    using ne by (simp add: loadWeightFromFile_def regBlack_def exampleFs_def countingLoader_def
        newAddr_def regBoth_def)
  have two: "regBoth 2 = regBoth 1\<lparr>pool := pool regBlack
      @ [\<lparr>filepath = ''d/white.bin'', weight = 2, refCount = 2\<rparr>]\<rparr>"
    by (simp add: regBoth_def regBlack_def)
  have eq: "pathEq ''d/white.bin'' ''d//white.bin''"
    by (simp add: pathEq_def pathParts_def)
  note rs = registry_sharing [OF wf fresh first two, of exampleFs countingLoader True 1]
  note c2 = conjunct2
  have again: "loadWeightFromFile exampleFs countingLoader True ''d//white.bin'' (regBoth 1, 1)
       = Returns (Some 2) (regBoth 2, 1)"
    using rs [THEN conjunct1, THEN spec, THEN mp, OF eq] .
  have other: "loadWeightFromFile exampleFs countingLoader True ''black.bin'' (regBoth 1, 1)
       = Returns (Some 1) (regBoth 1\<lparr>pool := [\<lparr>filepath = ''black.bin'', weight = 1, refCount = 2\<rparr>,
                        \<lparr>filepath = ''d/white.bin'', weight = 2, refCount = 1\<rparr>]\<rparr>, 1)"
    by (simp add: loadWeightFromFile_def regBoth_def)
  have diff: "(1::nat) \<noteq> 2"
    using rs [THEN c2, THEN c2, THEN c2, THEN c2, THEN c2, THEN c2, THEN c2,
        THEN spec, THEN spec, THEN spec, THEN spec, THEN spec, THEN mp, OF ne, THEN mp, OF other,
        THEN conjunct1] .
  show ?thesis
    by (intro conjI)
      (rule wf first eq again ne other diff rs [THEN c2, THEN c2, THEN conjunct1]
        rs [THEN c2, THEN c2, THEN c2, THEN c2, THEN conjunct1]
        rs [THEN c2, THEN c2, THEN c2, THEN c2, THEN c2, THEN conjunct1]
        rs [THEN c2, THEN c2, THEN c2, THEN c2, THEN c2, THEN c2, THEN conjunct1])+
qed


subsection \<open>Loader failures\<close>

lemma wrapper_bad_magic:
  assumes "readHeader junk s = (raw, s1)" and "le32 raw 0 \<noteq> headerMagic"
  shows "StandardHeaderParserWarpper_load hv junk base l s = Returns None l"
  using assms by (simp add: StandardHeaderParserWarpper_load_def)

lemma wrapper_validated:
  assumes "readHeader junk s = (raw, s1)" and "le32 raw 0 = headerMagic"
    and "hv = Some validator" and "readDescription (le32 raw 16) s1 = Some (desc, s2)"
  shows "StandardHeaderParserWarpper_load hv junk base l s
     = (case validator (standardHeader raw desc) of
          Inl e \<Rightarrow> Throws e l
        | Inr accepted \<Rightarrow> if \<not> accepted then Returns None l else base l s2)"
  using assms by (simp add: StandardHeaderParserWarpper_load_def)

lemma wrapper_overrun:
  assumes "readHeader junk s = (raw, s1)" and "le32 raw 0 = headerMagic"
    and "hv = Some validator" and "readDescription (le32 raw 16) s1 = None"
  shows "StandardHeaderParserWarpper_load hv junk base l s = Undefined"
  using assms by (simp add: StandardHeaderParserWarpper_load_def)

lemma wrapper_no_validator:
  assumes "readHeader junk s = (raw, s1)" and "le32 raw 0 = headerMagic"
  shows "StandardHeaderParserWarpper_load None junk base l s
     = base l (is_ignore (unat (le32 raw 16)) s1)"
  using assms by (simp add: StandardHeaderParserWarpper_load_def)

lemma wrapper_rejected:
  assumes rh: "readHeader junk s = (raw, s1)"
    and rej: "le32 raw 0 \<noteq> headerMagic
        \<or> (\<exists>validator desc s2. hv = Some validator
              \<and> readDescription (le32 raw 16) s1 = Some (desc, s2)
              \<and> validator (standardHeader raw desc) = Inr False)"
  shows "StandardHeaderParserWarpper_load hv junk base l s = Returns None l"
proof (cases "le32 raw 0 = headerMagic")
  case False
  with rh show ?thesis by (rule wrapper_bad_magic)
next
  case True
  with rej obtain validator desc s2 where v: "hv = Some validator"
    "readDescription (le32 raw 16) s1 = Some (desc, s2)"
    "validator (standardHeader raw desc) = Inr False"
    by (elim disjE exE conjE) simp_all
  show ?thesis
    unfolding wrapper_validated [OF rh True v(1,2)] by (simp add: v(3))
qed

lemma wrapper_thrown:
  assumes rh: "readHeader junk s = (raw, s1)" and ok: "le32 raw 0 = headerMagic"
    and v: "hv = Some validator" "readDescription (le32 raw 16) s1 = Some (desc, s2)"
      "validator (standardHeader raw desc) = Inl e"
  shows "StandardHeaderParserWarpper_load hv junk base l s = Throws e l"
  unfolding wrapper_validated [OF rh ok v(1,2)] by (simp add: v(3))

lemma wrapper_passed:
  assumes rh: "readHeader junk s = (raw, s1)" and ok: "le32 raw 0 = headerMagic"
    and pass: "hv = None \<and> body = is_ignore (unat (le32 raw 16)) s1
        \<or> (\<exists>validator desc. hv = Some validator
              \<and> readDescription (le32 raw 16) s1 = Some (desc, body)
              \<and> validator (standardHeader raw desc) = Inr True)"
  shows "StandardHeaderParserWarpper_load hv junk base l s = base l body"
  using pass
proof (elim disjE exE conjE)
  assume "hv = None" "body = is_ignore (unat (le32 raw 16)) s1"
  then show ?thesis using wrapper_no_validator [OF rh ok, of base l] by simp
next
  fix validator desc
  assume v: "hv = Some validator" "readDescription (le32 raw 16) s1 = Some (desc, body)"
    "validator (standardHeader raw desc) = Inr True"
  show ?thesis
    unfolding wrapper_validated [OF rh ok v(1,2)] by (simp add: v(3))
qed

lemma mix8_bad_buckets:
  assumes "sint (num_head_buckets (fst (readBodyHead Z s))) < 1
     \<or> sint (num_head_buckets (fst (readBodyHead Z s))) > int (MaxNumBuckets Z)"
  shows "Mix8BinaryWeightLoader_load Z s = None"
proof -
  obtain w s7 where r: "readBodyHead Z s = (w, s7)" by (cases "readBodyHead Z s")
  with assms show ?thesis by (auto simp: Mix8BinaryWeightLoader_load_def)
qed

lemma mix8_not_eof:
  assumes "\<not> at_eof (snd (readBodyTail Z (fst (readBodyHead Z s)) (snd (readBodyHead Z s))))"
  shows "Mix8BinaryWeightLoader_load Z s = None"
proof -
  obtain w s7 where r: "readBodyHead Z s = (w, s7)" by (cases "readBodyHead Z s")
  obtain w' s9 where t: "readBodyTail Z w s7 = (w', s9)" by (cases "readBodyTail Z w s7")
  with assms r show ?thesis by (simp add: Mix8BinaryWeightLoader_load_def)
qed

lemma mix8_body_fails:
  assumes "sint (num_head_buckets (fst (readBodyHead Z s))) < 1
     \<or> sint (num_head_buckets (fst (readBodyHead Z s))) > int (MaxNumBuckets Z)
     \<or> \<not> at_eof (snd (readBodyTail Z (fst (readBodyHead Z s)) (snd (readBodyHead Z s))))"
  shows "Mix8BinaryWeightLoader_load Z s = None"
  using assms
proof (elim disjE)
  assume "sint (num_head_buckets (fst (readBodyHead Z s))) < 1"
  then show ?thesis by (intro mix8_bad_buckets disjI1)
next
  assume "sint (num_head_buckets (fst (readBodyHead Z s))) > int (MaxNumBuckets Z)"
  then show ?thesis by (intro mix8_bad_buckets disjI2)
next
  assume "\<not> at_eof (snd (readBodyTail Z (fst (readBodyHead Z s)) (snd (readBodyHead Z s))))"
  then show ?thesis by (rule mix8_not_eof)
qed

lemma load_failed:
  "findLoaded path (pool reg) = None \<Longrightarrow> fs path nb = Some content \<Longrightarrow>
   load l \<lparr>buf = content, eofbit = False, failbit = False\<rparr> = Returns None l' \<Longrightarrow>
   loadWeightFromFile fs load nb path (reg, l) = Returns None (reg, l')"
  by (simp add: loadWeightFromFile_def)

lemma load_thrown:
  "findLoaded path (pool reg) = None \<Longrightarrow> fs path nb = Some content \<Longrightarrow>
   load l \<lparr>buf = content, eofbit = False, failbit = False\<rparr> = Throws e l' \<Longrightarrow>
   loadWeightFromFile fs load nb path (reg, l) = Throws e (reg, l')"
  by (simp add: loadWeightFromFile_def)

lemma load_undefined:
  "findLoaded path (pool reg) = None \<Longrightarrow> fs path nb = Some content \<Longrightarrow>
   load l \<lparr>buf = content, eofbit = False, failbit = False\<rparr> = Undefined \<Longrightarrow>
   loadWeightFromFile fs load nb path (reg, l) = Undefined"
  by (simp add: loadWeightFromFile_def)

lemma mix8Loader_opened:
  "openInputStream rawStream = Some decoded \<Longrightarrow>
   mix8Loader openInputStream hv junk Z l rawStream
     = StandardHeaderParserWarpper_load hv junk
         (\<lambda>l s. Returns (Mix8BinaryWeightLoader_load Z s) l) l decoded"
  by (simp add: mix8Loader_def CompressedWrapper_load_def)

text \<open>
  C8, with the two ways a validator can reject.  On the decoded stream of a file that the
  pool does not hold: when the header magic is not \<open>0xacd8cc6a\<close>, or the header validator
  returns false, or \<^verbatim>\<open>num_head_buckets\<close> is outside \<open>[1, MaxNumBuckets]\<close>, or the stream is not
  exactly at its end after the weight body, the load returns \<^verbatim>\<open>nullptr\<close> and
  \<^verbatim>\<open>loadWeightFromFile\<close> returns \<^verbatim>\<open>nullptr\<close> with the registry as it was; on a wrong magic
  or a header the validator returns false for, the header wrapper returns without running the
  base loader, whatever that loader is: the loader comes back as it went in.  When the
  validator throws, the exception leaves the wrapper, again before any base loader runs, and
  leaves \<^verbatim>\<open>loadWeightFromFile\<close> with the registry as it was.  With a validator set, all this
  is for headers whose description stays inside its buffer of \<open>desc_len + 1\<close> bytes.
\<close>

theorem failed_load_not_cached:
  assumes nf: "findLoaded path (pool reg) = None"
    and op: "fs path nb = Some content"
    and dec: "openInputStream \<lparr>buf = content, eofbit = False, failbit = False\<rparr> = Some s"
    and rh: "readHeader junk s = (raw, s1)"
  shows "(le32 raw 0 \<noteq> headerMagic
          \<or> (\<exists>validator desc s2. hv = Some validator
                \<and> readDescription (le32 raw 16) s1 = Some (desc, s2)
                \<and> validator (standardHeader raw desc) = Inr False)
          \<or> (\<exists>body. (hv = None \<and> body = is_ignore (unat (le32 raw 16)) s1
                      \<or> (\<exists>validator desc. hv = Some validator
                            \<and> readDescription (le32 raw 16) s1 = Some (desc, body)
                            \<and> validator (standardHeader raw desc) = Inr True))
                \<and> (sint (num_head_buckets (fst (readBodyHead Z body))) < 1
                    \<or> sint (num_head_buckets (fst (readBodyHead Z body))) > int (MaxNumBuckets Z)
                    \<or> \<not> at_eof (snd (readBodyTail Z (fst (readBodyHead Z body))
                                      (snd (readBodyHead Z body))))))
        \<longrightarrow> mix8Loader openInputStream hv junk Z l \<lparr>buf = content, eofbit = False, failbit = False\<rparr>
              = Returns None l
            \<and> loadWeightFromFile fs (mix8Loader openInputStream hv junk Z) nb path (reg, l)
              = Returns None (reg, l))
    \<and> (\<forall>(base :: ('c, 'd) load) l'.
          le32 raw 0 \<noteq> headerMagic
          \<or> (\<exists>validator desc s2. hv = Some validator
                \<and> readDescription (le32 raw 16) s1 = Some (desc, s2)
                \<and> validator (standardHeader raw desc) = Inr False)
        \<longrightarrow> StandardHeaderParserWarpper_load hv junk base l' s = Returns None l')
    \<and> (\<forall>validator desc s2 e.
          le32 raw 0 = headerMagic \<and> hv = Some validator
          \<and> readDescription (le32 raw 16) s1 = Some (desc, s2)
          \<and> validator (standardHeader raw desc) = Inl e
        \<longrightarrow> (\<forall>(base :: ('c, 'd) load) l'.
                StandardHeaderParserWarpper_load hv junk base l' s = Throws e l')
            \<and> loadWeightFromFile fs (mix8Loader openInputStream hv junk Z) nb path (reg, l)
              = Throws e (reg, l))"
proof -
  let ?inner = "\<lambda>l s. Returns (Mix8BinaryWeightLoader_load Z s) l"
  let ?raw = "\<lparr>buf = content, eofbit = False, failbit = False\<rparr>"
  let ?false = "\<exists>validator desc s2. hv = Some validator
                \<and> readDescription (le32 raw 16) s1 = Some (desc, s2)
                \<and> validator (standardHeader raw desc) = Inr False"
  let ?rej = "le32 raw 0 \<noteq> headerMagic \<or> ?false"
  let ?bodyfails = "\<exists>body. (hv = None \<and> body = is_ignore (unat (le32 raw 16)) s1
                      \<or> (\<exists>validator desc. hv = Some validator
                            \<and> readDescription (le32 raw 16) s1 = Some (desc, body)
                            \<and> validator (standardHeader raw desc) = Inr True))
                \<and> (sint (num_head_buckets (fst (readBodyHead Z body))) < 1
                    \<or> sint (num_head_buckets (fst (readBodyHead Z body))) > int (MaxNumBuckets Z)
                    \<or> \<not> at_eof (snd (readBodyTail Z (fst (readBodyHead Z body))
                                      (snd (readBodyHead Z body)))))"
  have A: "le32 raw 0 \<noteq> headerMagic \<or> ?false \<or> ?bodyfails
        \<longrightarrow> mix8Loader openInputStream hv junk Z l ?raw = Returns None l
            \<and> loadWeightFromFile fs (mix8Loader openInputStream hv junk Z) nb path (reg, l)
              = Returns None (reg, l)"
  proof
    assume "le32 raw 0 \<noteq> headerMagic \<or> ?false \<or> ?bodyfails"
    then have fails: "?rej \<or> ?bodyfails" by (simp only: disj_assoc)
    have w: "StandardHeaderParserWarpper_load hv junk ?inner l s = Returns None l"
      using fails
    proof
      assume ?rej
      with rh show ?thesis by (rule wrapper_rejected)
    next
      assume ?bodyfails
      then obtain body where pass: "hv = None \<and> body = is_ignore (unat (le32 raw 16)) s1
                      \<or> (\<exists>validator desc. hv = Some validator
                            \<and> readDescription (le32 raw 16) s1 = Some (desc, body)
                            \<and> validator (standardHeader raw desc) = Inr True)"
        and bad: "sint (num_head_buckets (fst (readBodyHead Z body))) < 1
                    \<or> sint (num_head_buckets (fst (readBodyHead Z body))) > int (MaxNumBuckets Z)
                    \<or> \<not> at_eof (snd (readBodyTail Z (fst (readBodyHead Z body))
                                      (snd (readBodyHead Z body))))"
        by (elim exE conjE)
      have none: "Mix8BinaryWeightLoader_load Z body = None"
        using bad by (rule mix8_body_fails)
      show ?thesis
      proof (cases "le32 raw 0 = headerMagic")
        case True
        show ?thesis
          unfolding wrapper_passed [OF rh True pass] by (simp add: none)
      next
        case False
        with rh show ?thesis by (rule wrapper_bad_magic)
      qed
    qed
    have m: "mix8Loader openInputStream hv junk Z l ?raw = Returns None l"
      unfolding mix8Loader_opened [where openInputStream = openInputStream and decoded = s, OF dec] by (rule w)
    have r: "loadWeightFromFile fs (mix8Loader openInputStream hv junk Z) nb path (reg, l)
        = Returns None (reg, l)"
      using nf op m by (rule load_failed)
    from m r show "mix8Loader openInputStream hv junk Z l ?raw = Returns None l
            \<and> loadWeightFromFile fs (mix8Loader openInputStream hv junk Z) nb path (reg, l)
              = Returns None (reg, l)" by (rule conjI)
  qed
  have B: "\<forall>(base :: ('c, 'd) load) l'. ?rej
        \<longrightarrow> StandardHeaderParserWarpper_load hv junk base l' s = Returns None l'"
    by (intro allI impI) (rule wrapper_rejected [OF rh])
  have C: "\<forall>validator desc s2 e.
          le32 raw 0 = headerMagic \<and> hv = Some validator
          \<and> readDescription (le32 raw 16) s1 = Some (desc, s2)
          \<and> validator (standardHeader raw desc) = Inl e
        \<longrightarrow> (\<forall>(base :: ('c, 'd) load) l'.
                StandardHeaderParserWarpper_load hv junk base l' s = Throws e l')
            \<and> loadWeightFromFile fs (mix8Loader openInputStream hv junk Z) nb path (reg, l)
              = Throws e (reg, l)"
  proof (intro allI impI)
    fix validator desc s2 e
    assume "le32 raw 0 = headerMagic \<and> hv = Some validator
          \<and> readDescription (le32 raw 16) s1 = Some (desc, s2)
          \<and> validator (standardHeader raw desc) = Inl e"
    then have v: "le32 raw 0 = headerMagic" "hv = Some validator"
      "readDescription (le32 raw 16) s1 = Some (desc, s2)"
      "validator (standardHeader raw desc) = Inl e" by simp_all
    have t: "StandardHeaderParserWarpper_load hv junk base l' s = Throws e l'" for base :: "('x, 'y) load" and l'
      using rh v by (rule wrapper_thrown)
    have "mix8Loader openInputStream hv junk Z l ?raw = Throws e l"
      unfolding mix8Loader_opened [where openInputStream = openInputStream and decoded = s, OF dec] by (rule t)
    with nf op
    have r: "loadWeightFromFile fs (mix8Loader openInputStream hv junk Z) nb path (reg, l)
        = Throws e (reg, l)"
      by (rule load_thrown)
    show "(\<forall>(base :: ('c, 'd) load) l'.
                StandardHeaderParserWarpper_load hv junk base l' s = Throws e l')
            \<and> loadWeightFromFile fs (mix8Loader openInputStream hv junk Z) nb path (reg, l)
              = Throws e (reg, l)"
      by (intro conjI allI) (rule t r)+
  qed
  show ?thesis
    by (intro conjI) (rule A B C)+
qed

lemma readHeader_renju:
  "readHeader (replicate 20 0) \<lparr>buf = renjuOnlyFile, eofbit = False, failbit = False\<rparr>
      = (renjuOnlyFile, \<lparr>buf = [], eofbit = False, failbit = False\<rparr>)"
  by (simp add: readHeader_def is_read_def good_def renjuOnlyFile_def)

lemma readHeader_noBucket:
  "readHeader (replicate 20 0) \<lparr>buf = noBucketFile, eofbit = False, failbit = False\<rparr>
      = (take 20 noBucketFile, \<lparr>buf = replicate 32 0, eofbit = False, failbit = False\<rparr>)"
  by (simp add: readHeader_def is_read_def good_def noBucketFile_def)

lemma renju_fields:
  "le32 renjuOnlyFile 0 = headerMagic" "le32 renjuOnlyFile 4 = 0" "le32 renjuOnlyFile 8 = 4"
  "le32 renjuOnlyFile 16 = 0"
  by (simp_all add: le32_def renjuOnlyFile_def headerMagic_def)

lemma noBucket_fields:
  "le32 (take 20 noBucketFile) 0 = headerMagic" "le32 (take 20 noBucketFile) 4 = 0"
  "le32 (take 20 noBucketFile) 8 = 1" "le32 (take 20 noBucketFile) 12 = 0x7fffffff"
  "le32 (take 20 noBucketFile) 16 = 0"
  by (simp_all add: le32_def noBucketFile_def headerMagic_def)

lemma readDescription_zero:
  "readDescription 0 \<lparr>buf = bs, eofbit = False, failbit = False\<rparr>
     = Some ([0], \<lparr>buf = bs, eofbit = False, failbit = False\<rparr>)"
  by (simp add: readDescription_def is_read_def good_def)

lemma renju_thrown:
  "mix8Validator 0 FREESTYLE 15 (standardHeader renjuOnlyFile [0])
     = Inl (UnsupportedRuleError FREESTYLE)"
  by (simp add: mix8Validator_def standardHeader_def renju_fields parseRuleMask_def)

lemma sizes_15: "15 \<in> set (parseBoardSizeMask 0x7fffffff)"
  by (simp add: parseBoardSizeMask_def upt_rec drop_bit_eq_div)

lemma noBucket_accepted:
  "mix8Validator 0 FREESTYLE 15 (standardHeader (take 20 noBucketFile) [0]) = Inr True"
  using sizes_15
  by (simp add: mix8Validator_def standardHeader_def noBucket_fields parseRuleMask_def)

lemma noBucket_body:
  "sint (num_head_buckets (fst (readBodyHead exampleSizes
      \<lparr>buf = replicate 32 0, eofbit = False, failbit = False\<rparr>))) < 1"
  by (simp add: readBodyHead_def is_read_def good_def exampleSizes_def le32_def Let_def)

theorem failed_load_not_cached_witness:
  "mix8Validator 0 FREESTYLE 15 (standardHeader (take 20 noBucketFile) [0]) = Inr True
   \<and> loadWeightFromFile noBucketFs
        (mix8Loader Some (Some (mix8Validator 0 FREESTYLE 15)) (replicate 20 0) exampleSizes) True
        ''weight.bin'' (emptyRegistry, ()) = Returns None (emptyRegistry, ())
   \<and> mix8Validator 0 FREESTYLE 15 (standardHeader renjuOnlyFile [0])
        = Inl (UnsupportedRuleError FREESTYLE)
   \<and> loadWeightFromFile renjuFs
        (mix8Loader Some (Some (mix8Validator 0 FREESTYLE 15)) (replicate 20 0) exampleSizes) True
        ''renju.bin'' (emptyRegistry, ()) = Throws (UnsupportedRuleError FREESTYLE) (emptyRegistry, ())"
proof -
  let ?v = "mix8Validator 0 FREESTYLE 15"
  let ?body = "\<lparr>buf = replicate 32 0, eofbit = False, failbit = False\<rparr>"
  have nf: "findLoaded p (pool (emptyRegistry :: Mix8WeightBytes WeightRegistry)) = None" for p
    by (simp add: emptyRegistry_def)
  have op1: "noBucketFs ''weight.bin'' True = Some noBucketFile" by (simp add: noBucketFs_def)
  have op2: "renjuFs ''renju.bin'' True = Some renjuOnlyFile" by (simp add: renjuFs_def)
  have pass: "\<exists>validator desc. Some ?v = Some validator
       \<and> readDescription (le32 (take 20 noBucketFile) 16) ?body = Some (desc, ?body)
       \<and> validator (standardHeader (take 20 noBucketFile) desc) = Inr True"
    by (intro exI [of _ ?v] exI [of _ "[0]"] conjI refl noBucket_accepted)
       (simp add: noBucket_fields readDescription_zero)
  have bad: "sint (num_head_buckets (fst (readBodyHead exampleSizes ?body))) < 1
      \<or> sint (num_head_buckets (fst (readBodyHead exampleSizes ?body))) > int (MaxNumBuckets exampleSizes)
      \<or> \<not> at_eof (snd (readBodyTail exampleSizes (fst (readBodyHead exampleSizes ?body))
                        (snd (readBodyHead exampleSizes ?body))))"
    by (rule disjI1) (rule noBucket_body)
  have fails: "le32 (take 20 noBucketFile) 0 \<noteq> headerMagic
     \<or> (\<exists>validator desc s2. Some ?v = Some validator
           \<and> readDescription (le32 (take 20 noBucketFile) 16) ?body = Some (desc, s2)
           \<and> validator (standardHeader (take 20 noBucketFile) desc) = Inr False)
     \<or> (\<exists>body. (Some ?v = None \<and> body = is_ignore (unat (le32 (take 20 noBucketFile) 16)) ?body
                 \<or> (\<exists>validator desc. Some ?v = Some validator
                       \<and> readDescription (le32 (take 20 noBucketFile) 16) ?body = Some (desc, body)
                       \<and> validator (standardHeader (take 20 noBucketFile) desc) = Inr True))
           \<and> (sint (num_head_buckets (fst (readBodyHead exampleSizes body))) < 1
               \<or> sint (num_head_buckets (fst (readBodyHead exampleSizes body)))
                   > int (MaxNumBuckets exampleSizes)
               \<or> \<not> at_eof (snd (readBodyTail exampleSizes (fst (readBodyHead exampleSizes body))
                                 (snd (readBodyHead exampleSizes body))))))"
    by (intro disjI2 exI [of _ ?body] conjI pass bad)
  have one: "loadWeightFromFile noBucketFs
        (mix8Loader Some (Some ?v) (replicate 20 0) exampleSizes) True
        ''weight.bin'' (emptyRegistry, ()) = Returns None (emptyRegistry, ())"
    using failed_load_not_cached [where openInputStream = Some and l = "()" and Z = exampleSizes
       and path = "''weight.bin''" and reg = emptyRegistry and fs = noBucketFs and nb = True
       and content = noBucketFile and hv = "Some ?v" and junk = "replicate 20 0"
       and s = "\<lparr>buf = noBucketFile, eofbit = False, failbit = False\<rparr>",
       OF nf op1 refl readHeader_noBucket, THEN conjunct1, THEN mp, OF fails, THEN conjunct2] .
  have thrown: "le32 renjuOnlyFile 0 = headerMagic \<and> Some ?v = Some ?v
      \<and> readDescription (le32 renjuOnlyFile 16) \<lparr>buf = [], eofbit = False, failbit = False\<rparr>
            = Some ([0], \<lparr>buf = [], eofbit = False, failbit = False\<rparr>)
      \<and> ?v (standardHeader renjuOnlyFile [0]) = Inl (UnsupportedRuleError FREESTYLE)"
    by (simp add: renju_fields readDescription_zero renju_thrown)
  have two: "loadWeightFromFile renjuFs
        (mix8Loader Some (Some ?v) (replicate 20 0) exampleSizes) True
        ''renju.bin'' (emptyRegistry, ()) = Throws (UnsupportedRuleError FREESTYLE) (emptyRegistry, ())"
    using failed_load_not_cached [where openInputStream = Some and l = "()" and Z = exampleSizes
       and path = "''renju.bin''" and reg = emptyRegistry and fs = renjuFs and nb = True
       and content = renjuOnlyFile and hv = "Some ?v" and junk = "replicate 20 0"
       and s = "\<lparr>buf = renjuOnlyFile, eofbit = False, failbit = False\<rparr>",
       OF nf op2 refl readHeader_renju, THEN conjunct2, THEN conjunct2,
       THEN spec, THEN spec, THEN spec, THEN spec, THEN mp, OF thrown, THEN conjunct2] .
  show ?thesis
    by (intro conjI) (rule noBucket_accepted one renju_thrown two)+
qed

text \<open>
  C8 as stated fails on scenario S5 with the validator the evaluator sets: on a RENJU-only
  header and the rule FREESTYLE the validator rejects by throwing, and neither the load nor
  \<^verbatim>\<open>loadWeightFromFile\<close> returns \<^verbatim>\<open>nullptr\<close>: the exception leaves them, the pool untouched.
\<close>

theorem failed_load_not_cached_counterexample:
  "mix8Validator 0 FREESTYLE 15 (standardHeader renjuOnlyFile [0])
        = Inl (UnsupportedRuleError FREESTYLE)
   \<and> loadWeightFromFile renjuFs
        (mix8Loader Some (Some (mix8Validator 0 FREESTYLE 15)) (replicate 20 0) exampleSizes) True
        ''renju.bin'' (emptyRegistry, ()) = Throws (UnsupportedRuleError FREESTYLE) (emptyRegistry, ())
   \<and> loadWeightFromFile renjuFs
        (mix8Loader Some (Some (mix8Validator 0 FREESTYLE 15)) (replicate 20 0) exampleSizes) True
        ''renju.bin'' (emptyRegistry, ()) \<noteq> Returns None (emptyRegistry, ())"
proof -
  have nf: "findLoaded ''renju.bin'' (pool (emptyRegistry :: Mix8WeightBytes WeightRegistry)) = None"
    by (simp add: emptyRegistry_def)
  have op: "renjuFs ''renju.bin'' True = Some renjuOnlyFile" by (simp add: renjuFs_def)
  have rd: "readDescription (le32 renjuOnlyFile 16) \<lparr>buf = [], eofbit = False, failbit = False\<rparr>
      = Some ([0], \<lparr>buf = [], eofbit = False, failbit = False\<rparr>)"
    by (simp add: renju_fields readDescription_zero)
  have "StandardHeaderParserWarpper_load (Some (mix8Validator 0 FREESTYLE 15)) (replicate 20 0)
      (\<lambda>l s. Returns (Mix8BinaryWeightLoader_load exampleSizes s) l) ()
      \<lparr>buf = renjuOnlyFile, eofbit = False, failbit = False\<rparr>
        = Throws (UnsupportedRuleError FREESTYLE) ()"
    using readHeader_renju renju_fields(1) refl rd renju_thrown by (rule wrapper_thrown)
  then have m: "mix8Loader Some (Some (mix8Validator 0 FREESTYLE 15)) (replicate 20 0) exampleSizes ()
      \<lparr>buf = renjuOnlyFile, eofbit = False, failbit = False\<rparr>
        = Throws (UnsupportedRuleError FREESTYLE) ()"
    by (simp only: mix8Loader_opened [where openInputStream = Some, OF refl])
  have t: "loadWeightFromFile renjuFs
        (mix8Loader Some (Some (mix8Validator 0 FREESTYLE 15)) (replicate 20 0) exampleSizes) True
        ''renju.bin'' (emptyRegistry, ()) = Throws (UnsupportedRuleError FREESTYLE) (emptyRegistry, ())"
    using nf op m by (rule load_thrown)
  show ?thesis
    by (intro conjI) (simp_all only: t renju_thrown, simp)
qed

text \<open>
  The description outside its buffer: with \<open>desc_len = 0xffffffff\<close> the buffer has no byte,
  and one byte left in the stream is stored past its end.
\<close>

lemma description_overrun:
  "loadWeightFromFile (\<lambda>path binary. Some overrunFile)
        (mix8Loader Some (Some (mix8Validator 0 FREESTYLE 15)) (replicate 20 0) exampleSizes) True
        ''overrun.bin'' (emptyRegistry, ()) = Undefined"
proof -
  have rh: "readHeader (replicate 20 0) \<lparr>buf = overrunFile, eofbit = False, failbit = False\<rparr>
      = (take 20 overrunFile, \<lparr>buf = [0x41], eofbit = False, failbit = False\<rparr>)"
    by (simp add: readHeader_def is_read_def good_def overrunFile_def)
  have f: "le32 (take 20 overrunFile) 0 = headerMagic" "le32 (take 20 overrunFile) 16 = 0xffffffff"
    by (simp_all add: le32_def overrunFile_def headerMagic_def)
  have rd: "readDescription 0xffffffff \<lparr>buf = [0x41], eofbit = False, failbit = False\<rparr> = None"
    by (simp add: readDescription_def good_def)
  have nf: "findLoaded ''overrun.bin'' (pool (emptyRegistry :: Mix8WeightBytes WeightRegistry)) = None"
    by (simp add: emptyRegistry_def)
  have "StandardHeaderParserWarpper_load (Some (mix8Validator 0 FREESTYLE 15)) (replicate 20 0)
      (\<lambda>l s. Returns (Mix8BinaryWeightLoader_load exampleSizes s) l) ()
      \<lparr>buf = overrunFile, eofbit = False, failbit = False\<rparr> = Undefined"
    using rh f(1) refl rd [folded f(2)] by (rule wrapper_overrun)
  then have m: "mix8Loader Some (Some (mix8Validator 0 FREESTYLE 15)) (replicate 20 0) exampleSizes ()
      \<lparr>buf = overrunFile, eofbit = False, failbit = False\<rparr> = Undefined"
    by (simp only: mix8Loader_opened [where openInputStream = Some, OF refl])
  show ?thesis
    using nf refl m by (rule load_undefined)
qed


section \<open>Properties of the move cache\<close>

lemma isContraryMove_sym: "isContraryMove a b = isContraryMove b a"
  by (auto simp: isContraryMove_def)

lemma reduced_snoc:
  "reduced (mc @ [a]) \<longleftrightarrow> reduced mc \<and> (mc = [] \<or> \<not> isContraryMove a (last mc))"
  by (induction mc rule: reduced.induct) (auto simp: isContraryMove_sym)

lemma reduced_butlast: "reduced mc \<Longrightarrow> reduced (butlast mc)"
  by (induction mc rule: reduced.induct) auto

lemma reduced_addCacheSide: "reduced mc \<Longrightarrow> reduced (addCacheSide new mc)"
  by (simp add: addCacheSide_def reduced_snoc reduced_butlast)

lemma contrary_eq:
  "isContraryMove m t \<Longrightarrow> isContraryMove u m \<Longrightarrow> (t :: MoveCache) = u"
  by (cases t, cases u) (auto simp: isContraryMove_def)

lemma addCacheSide_cancel:
  assumes red: "reduced mc" and con: "isContraryMove u m"
  shows "addCacheSide u (addCacheSide m mc) = mc"
proof (cases "mc = [] \<or> \<not> isContraryMove m (last mc)")
  case True
  then have "addCacheSide m mc = mc @ [m]" by (simp add: addCacheSide_def)
  then show ?thesis using con by (simp add: addCacheSide_def)
next
  case False
  then have ne: "mc \<noteq> []" and c: "isContraryMove m (last mc)" by simp_all
  have tu: "last mc = u" using c con by (rule contrary_eq)
  have pop: "addCacheSide m mc = butlast mc" using False by (simp add: addCacheSide_def)
  have "butlast mc = [] \<or> \<not> isContraryMove u (last (butlast mc))"
  proof (cases "butlast mc = []")
    case True
    then show ?thesis by simp
  next
    case False
    from ne have "mc = butlast mc @ [last mc]" by simp
    with red have "reduced (butlast mc @ [last mc])" by simp
    with False have "\<not> isContraryMove (last mc) (last (butlast mc))"
      by (simp add: reduced_snoc)
    then show ?thesis by (simp add: tu)
  qed
  then have "addCacheSide u (butlast mc) = butlast mc @ [u]"
    by (auto simp: addCacheSide_def)
  also have "\<dots> = mc" using ne tu by (metis append_butlast_last_id)
  finally show ?thesis by (simp add: pop)
qed

lemma addCache_moveCache:
  "moveCache (addCache side x y isUndo e) =
     (moveCache e)
       (BLACK := addCacheSide \<lparr>oldColor = (if isUndo then side else EMPTY),
                      newColor = (if isUndo then EMPTY else side),
                      mc_x = word_of_int x, mc_y = word_of_int y\<rparr> (moveCache e BLACK),
        WHITE := addCacheSide \<lparr>oldColor = (if isUndo then side else EMPTY),
                      newColor = (if isUndo then EMPTY else side),
                      mc_x = word_of_int x, mc_y = word_of_int y\<rparr> (moveCache e WHITE))"
  by (simp add: addCache_def Let_def)

lemma addCache_others:
  "accumulator (addCache side x y isUndo e) = accumulator e"
  "sideWeight (addCache side x y isUndo e) = sideWeight e"
  "valueSumBoardHistory (addCache side x y isUndo e) = valueSumBoardHistory e"
  "Mix8Evaluator.more (addCache side x y isUndo e) = Mix8Evaluator.more e"
  by (simp_all add: addCache_def Let_def)

lemma addCache_cancel:
  assumes "reduced (moveCache e BLACK)" "reduced (moveCache e WHITE)"
  shows "addCache side x y True (addCache side x y False e) = e"
proof -
  let ?m = "\<lparr>oldColor = EMPTY, newColor = side, mc_x = word_of_int x, mc_y = word_of_int y\<rparr>"
  let ?u = "\<lparr>oldColor = side, newColor = EMPTY, mc_x = word_of_int x, mc_y = word_of_int y\<rparr>"
  have con: "isContraryMove ?u ?m" by (simp add: isContraryMove_def)
  have "moveCache (addCache side x y True (addCache side x y False e)) = moveCache e"
    using addCacheSide_cancel [OF assms(1) con] addCacheSide_cancel [OF assms(2) con]
    by (auto simp: addCache_moveCache fun_eq_iff)
  then show ?thesis
    by (intro Mix8Evaluator.equality) (simp_all add: addCache_others)
qed

lemma clearCache_empty:
  assumes "moveCache e side = []"
  shows "clearCache D side e = Some ([], e)"
proof -
  have "(moveCache e)(side := []) = moveCache e"
    using assms by (simp add: fun_upd_idem)
  then show ?thesis using assms by (simp add: clearCache_def)
qed


lemma reduced_addCache:
  "reduced (moveCache e c) \<Longrightarrow> reduced (moveCache (addCache side x y isUndo e) c)"
  by (cases c) (simp_all add: addCache_moveCache reduced_addCacheSide)

lemma reduced_initEmptyBoard: "reduced (moveCache (initEmptyBoard D e) BLACK)"
  "reduced (moveCache (initEmptyBoard D e) WHITE)"
  by (simp_all add: initEmptyBoard_def)

text \<open>
  C4.  On caches as \<^verbatim>\<open>addCache\<close> builds them (no entry contrary to its successor), the
  \<^verbatim>\<open>addCache\<close> of a move at \<open>(x, y)\<close> by a side followed by the \<^verbatim>\<open>addCache\<close> of the undo at
  \<open>(x, y)\<close> by the same side leaves both side caches, and the whole evaluator, as they were;
  so the next drain makes the calls it would have made without the two events, none at all
  when the cache was empty, and the drained accumulator is the one from before.
\<close>

theorem move_undo_cancel_in_cache:
  assumes "reduced (moveCache e BLACK)" "reduced (moveCache e WHITE)"
  shows "addCache side x y True (addCache side x y False e) = e
    \<and> moveCache (addCache side x y True (addCache side x y False e)) BLACK = moveCache e BLACK
    \<and> moveCache (addCache side x y True (addCache side x y False e)) WHITE = moveCache e WHITE
    \<and> clearCache D s (addCache side x y True (addCache side x y False e)) = clearCache D s e
    \<and> (moveCache e s = [] \<longrightarrow>
         clearCache D s (addCache side x y True (addCache side x y False e)) = Some ([], e))"
  using addCache_cancel [OF assms] by (simp add: clearCache_empty)

theorem move_undo_cancel_in_cache_witness:
  "reduced (moveCache exampleEvaluator BLACK) \<and> reduced (moveCache exampleEvaluator WHITE)
   \<and> addCache BLACK 3 3 True (addCache BLACK 3 3 False exampleEvaluator) = exampleEvaluator
   \<and> clearCache exampleDims BLACK (addCache BLACK 3 3 True (addCache BLACK 3 3 False exampleEvaluator))
       = Some ([], exampleEvaluator)"
proof -
  have b: "reduced (moveCache exampleEvaluator BLACK)"
    and w: "reduced (moveCache exampleEvaluator WHITE)"
    and e: "moveCache exampleEvaluator BLACK = []"
    by (simp_all add: exampleEvaluator_def)
  note t = move_undo_cancel_in_cache [OF b w, of BLACK 3 3 exampleDims BLACK]
  note c2 = conjunct2
  show ?thesis
    by (intro conjI)
      (rule b w t [THEN conjunct1] t [THEN c2, THEN c2, THEN c2, THEN c2, THEN mp, OF e])+
qed


section \<open>Properties of the Mix8 accumulator\<close>

subsection \<open>The index table\<close>

lemma boardSize_example: "boardSize exampleAccumulator = 15"
  by (simp add: exampleAccumulator_def)

lemma indexTable_example: "indexTable exampleAccumulator i dir = 0"
  by (simp add: exampleAccumulator_def)

lemma sint32_of_int:
  "- 2147483648 \<le> v \<Longrightarrow> v < 2147483648 \<Longrightarrow> sint (word_of_int v :: 32 word) = v"
  by (simp add: signed_of_int signed_take_bit_int_eq_self)

lemma neg32_iff:
  "- 2147483648 \<le> v \<Longrightarrow> v < 2147483648 \<Longrightarrow> bit (word_of_int v :: 32 word) 31 \<longleftrightarrow> v < 0"
  using bit_last_iff [of "word_of_int v :: 32 word"] by (simp add: sint32_of_int)

lemma offBoard_iff:
  assumes "\<bar>xi\<bar> < 1000000" "\<bar>yi\<bar> < 1000000" "\<bar>bs\<bar> < 1000000"
  shows "offBoard bs xi yi \<longleftrightarrow> \<not> onBoard bs xi yi"
proof -
  have "offBoard bs xi yi \<longleftrightarrow>
      bit ((word_of_int xi :: 32 word) OR word_of_int (bs - 1 - xi)
              OR word_of_int yi OR word_of_int (bs - 1 - yi)) 31"
    unfolding offBoard_def
    using bit_last_iff [of "(word_of_int xi :: 32 word) OR word_of_int (bs - 1 - xi)
              OR word_of_int yi OR word_of_int (bs - 1 - yi)"] by simp
  also have "\<dots> \<longleftrightarrow> bit (word_of_int xi :: 32 word) 31 \<or> bit (word_of_int (bs - 1 - xi) :: 32 word) 31
      \<or> bit (word_of_int yi :: 32 word) 31 \<or> bit (word_of_int (bs - 1 - yi) :: 32 word) 31"
    by (simp only: bit_or_iff)
  also have "\<dots> \<longleftrightarrow> xi < 0 \<or> bs - 1 - xi < 0 \<or> yi < 0 \<or> bs - 1 - yi < 0"
  proof -
    have "bit (word_of_int xi :: 32 word) 31 \<longleftrightarrow> xi < 0"
      "bit (word_of_int (bs - 1 - xi) :: 32 word) 31 \<longleftrightarrow> bs - 1 - xi < 0"
      "bit (word_of_int yi :: 32 word) 31 \<longleftrightarrow> yi < 0"
      "bit (word_of_int (bs - 1 - yi) :: 32 word) 31 \<longleftrightarrow> bs - 1 - yi < 0"
      using assms by (intro neg32_iff; linarith)+
    then show ?thesis by (simp only:)
  qed
  also have "\<dots> \<longleftrightarrow> \<not> onBoard bs xi yi"
    by (auto simp: onBoard_def)
  finally show ?thesis .
qed

lemma shapeStep_hit:
  "hits bs x y p \<Longrightarrow>
   shapeStep bs dP x y (it, cs) p =
     (it(fst (keyOf bs x y p) := (it (fst (keyOf bs x y p)))
            (snd (keyOf bs x y p) := it (fst (keyOf bs x y p)) (snd (keyOf bs x y p)) + shapeDelta dP p)),
      cs @ [mkChange bs dP x y it p])"
  by (cases p) (simp add: shapeStep_def hits_def keyOf_def Let_def mkChange_def shapeDelta_def)

lemma shapeStep_miss:
  "\<not> hits bs x y p \<Longrightarrow> shapeStep bs dP x y (it, cs) p = (it, cs)"
  by (cases p) (simp add: shapeStep_def hits_def)

lemma mkChange_cong:
  "it (fst (keyOf bs x y p)) (snd (keyOf bs x y p)) = it' (fst (keyOf bs x y p)) (snd (keyOf bs x y p))
   \<Longrightarrow> mkChange bs dP x y it p = mkChange bs dP x y it' p"
  by (cases p) (simp add: mkChange_def keyOf_def)

lemma shape_fold:
  assumes "distinct (map (keyOf bs x y) (filter (hits bs x y) ps))"
  shows "foldl (shapeStep bs dP x y) (it, cs) ps =
     ((\<lambda>i d. it i d + shapeSum bs dP x y ps i d),
      cs @ map (mkChange bs dP x y it) (filter (hits bs x y) ps))"
  using assms
proof (induction ps arbitrary: it cs)
  case Nil
  then show ?case by (simp add: shapeSum_def)
next
  case (Cons p ps)
  show ?case
  proof (cases "hits bs x y p")
    case False
    with Cons.prems have d: "distinct (map (keyOf bs x y) (filter (hits bs x y) ps))" by simp
    have s: "shapeSum bs dP x y (p # ps) = shapeSum bs dP x y ps"
      using False by (simp add: shapeSum_def fun_eq_iff)
    show ?thesis
      using False Cons.IH [OF d] by (simp add: shapeStep_miss s)
  next
    case True
    define k where "k = keyOf bs x y p"
    define it1 where "it1 = it(fst k := (it (fst k))(snd k := it (fst k) (snd k) + shapeDelta dP p))"
    from True Cons.prems have d: "distinct (map (keyOf bs x y) (filter (hits bs x y) ps))"
      and nk: "k \<notin> keyOf bs x y ` set (filter (hits bs x y) ps)" by (simp_all add: k_def)
    have tab: "(\<lambda>i d. it1 i d + shapeSum bs dP x y ps i d)
        = (\<lambda>i d. it i d + shapeSum bs dP x y (p # ps) i d)"
    proof (intro ext)
      fix i d
      show "it1 i d + shapeSum bs dP x y ps i d = it i d + shapeSum bs dP x y (p # ps) i d"
      proof (cases "k = (i, d)")
        case k: True
        then have "fst k = i" "snd k = d" by simp_all
        then have "it1 i d = it i d + shapeDelta dP p" by (simp add: it1_def)
        then show ?thesis using True k by (simp add: shapeSum_def k_def)
      next
        case k: False
        then have "it1 i d = it i d" by (auto simp: prod_eq_iff it1_def)
        then show ?thesis using k by (simp add: shapeSum_def k_def)
      qed
    qed
    have ch: "map (mkChange bs dP x y it1) (filter (hits bs x y) ps)
        = map (mkChange bs dP x y it) (filter (hits bs x y) ps)"
    proof (rule map_cong [OF refl])
      fix q assume q: "q \<in> set (filter (hits bs x y) ps)"
      then have "keyOf bs x y q \<in> keyOf bs x y ` set (filter (hits bs x y) ps)"
        by (rule imageI)
      then have "keyOf bs x y q \<noteq> k" using nk by metis
      then have "it1 (fst (keyOf bs x y q)) (snd (keyOf bs x y q))
          = it (fst (keyOf bs x y q)) (snd (keyOf bs x y q))"
        by (auto simp: prod_eq_iff it1_def)
      then show "mkChange bs dP x y it1 q = mkChange bs dP x y it q"
        by (rule mkChange_cong)
    qed
    have "foldl (shapeStep bs dP x y) (it, cs) (p # ps)
        = foldl (shapeStep bs dP x y) (it1, cs @ [mkChange bs dP x y it p]) ps"
      using True by (simp add: shapeStep_hit it1_def k_def)
    also have "\<dots> = ((\<lambda>i d. it1 i d + shapeSum bs dP x y ps i d),
        (cs @ [mkChange bs dP x y it p]) @ map (mkChange bs dP x y it1) (filter (hits bs x y) ps))"
      by (rule Cons.IH [OF d])
    also have "\<dots> = ((\<lambda>i d. it i d + shapeSum bs dP x y (p # ps) i d),
        cs @ map (mkChange bs dP x y it) (filter (hits bs x y) (p # ps)))"
      unfolding tab ch using True by simp
    finally show ?thesis .
  qed
qed

lemma set_dirDist: "set dirDist = {0..<4} \<times> {- 5..5}"
proof -
  have "set dirDist = (\<Union>dir \<in> {0..<4}. Pair dir ` {- 5..5})"
    unfolding dirDist_def by (simp only: set_concat set_map set_upt set_upto image_image) 
  then show ?thesis by auto
qed

lemma distinct_dirDist: "distinct dirDist"
  by code_simp

lemma int16_id: "0 \<le> v \<Longrightarrow> v < 32768 \<Longrightarrow> int16 v = v"
  by (simp add: int16_def signed_of_int signed_take_bit_int_eq_self)

lemma int8_id: "0 \<le> v \<Longrightarrow> v < 128 \<Longrightarrow> int8 v = v"
  by (simp add: int8_def signed_of_int signed_take_bit_int_eq_self)

lemma inner_bounds:
  assumes "onBoard bs xi yi" "bs \<le> 127"
  shows "0 \<le> bs * yi + xi" "bs * yi + xi < 32768"
proof -
  from assms have b: "0 \<le> xi" "xi < bs" "0 \<le> yi" "yi < bs" by (simp_all add: onBoard_def)
  then have "0 \<le> bs * yi" by simp
  with b show "0 \<le> bs * yi + xi" by simp
  have "bs * yi \<le> 127 * 126"
    using b assms(2) by (intro mult_mono) simp_all
  with b assms(2) show "bs * yi + xi < 32768" by simp
qed

lemma inner_inj:
  assumes "onBoard bs xi yi" "onBoard bs xi' yi'" "bs * yi + xi = bs * yi' + xi'"
  shows "xi = xi' \<and> yi = yi'"
proof -
  from assms have b: "0 \<le> xi" "xi < bs" "0 \<le> xi'" "xi' < bs" by (simp_all add: onBoard_def)
  have "(bs * yi + xi) div bs = yi" "(bs * yi' + xi') div bs = yi'"
    using b by simp_all
  with assms(3) have "yi = yi'" by simp
  with assms(3) show ?thesis by simp
qed

lemma dir_dist_inj:
  assumes "dir < 4" "x - dist * DX dir = x - dist' * DX dir" "y - dist * DY dir = y - dist' * DY dir"
  shows "dist = dist'"
proof -
  from assms(1) consider "dir = 0" | "dir = 1" | "dir = 2" | "dir = 3" by linarith
  then show ?thesis using assms(2,3) by cases (simp_all add: DX.simps DY.simps)
qed

lemma DX_DY_range: "DX dir = 0 \<or> DX dir = 1" "DY dir = 0 \<or> DY dir = 1 \<or> DY dir = - 1"
  by (auto simp: DX.simps DY.simps)

lemma offset_bounds:
  assumes "- 5 \<le> dist" "dist \<le> 5"
  shows "- 5 \<le> dist * DX dir" "dist * DX dir \<le> 5" "- 5 \<le> dist * DY dir" "dist * DY dir \<le> 5"
  using assms DX_DY_range [of dir] by auto

lemma hits_onBoard:
  assumes "0 \<le> x" "x < bs" "0 \<le> y" "y < bs" "bs \<le> 127" "(dir, dist) \<in> set dirDist"
  shows "hits bs x y (dir, dist) \<longleftrightarrow> onBoard bs (x - dist * DX dir) (y - dist * DY dir)"
proof -
  from assms(6) have "dir < 4" "- 5 \<le> dist" "dist \<le> 5" by (simp_all add: set_dirDist)
  then have "\<bar>x - dist * DX dir\<bar> < 1000000" "\<bar>y - dist * DY dir\<bar> < 1000000" "\<bar>bs\<bar> < 1000000"
    using assms(1-5) offset_bounds [of dist dir] by linarith+
  then show ?thesis by (simp add: hits_def offBoard_iff)
qed

lemma keyOf_onBoard:
  assumes "bs \<le> 127" "onBoard bs (x - dist * DX dir) (y - dist * DY dir)"
  shows "keyOf bs x y (dir, dist) = (bs * (y - dist * DY dir) + (x - dist * DX dir), dir)"
  using inner_bounds [OF assms(2,1)] by (simp add: keyOf_def int16_id)

lemma distinct_keys:
  assumes "0 \<le> x" "x < bs" "0 \<le> y" "y < bs" "bs \<le> 127"
  shows "distinct (map (keyOf bs x y) (filter (hits bs x y) dirDist))"
proof -
  have "inj_on (keyOf bs x y) (set (filter (hits bs x y) dirDist))"
  proof (rule inj_onI)
    fix p q assume p: "p \<in> set (filter (hits bs x y) dirDist)"
      and q: "q \<in> set (filter (hits bs x y) dirDist)"
      and k: "keyOf bs x y p = keyOf bs x y q"
    obtain dir dist where pe: "p = (dir, dist)" by (cases p)
    obtain dir' dist' where qe: "q = (dir', dist')" by (cases q)
    from p pe have pm: "(dir, dist) \<in> set dirDist" and ph: "hits bs x y (dir, dist)" by simp_all
    from q qe have qm: "(dir', dist') \<in> set dirDist" and qh: "hits bs x y (dir', dist')" by simp_all
    have po: "onBoard bs (x - dist * DX dir) (y - dist * DY dir)"
      using hits_onBoard [OF assms pm] ph by simp
    have qo: "onBoard bs (x - dist' * DX dir') (y - dist' * DY dir')"
      using hits_onBoard [OF assms qm] qh by simp
    from k have kk: "(bs * (y - dist * DY dir) + (x - dist * DX dir), dir)
         = (bs * (y - dist' * DY dir') + (x - dist' * DX dir'), dir')"
      unfolding pe qe keyOf_onBoard [OF assms(5) po] keyOf_onBoard [OF assms(5) qo] .
    then have dd: "dir = dir'" by (rule Pair_inject)
    from kk have "bs * (y - dist * DY dir) + (x - dist * DX dir)
         = bs * (y - dist' * DY dir') + (x - dist' * DX dir')" by (rule Pair_inject)
    from inner_inj [OF po qo this]
    have "x - dist * DX dir = x - dist' * DX dir" "y - dist * DY dir = y - dist' * DY dir"
      unfolding dd by blast+
    moreover from pm have "dir < 4" by (simp add: set_dirDist)
    ultimately have "dist = dist'" by (rule dir_dist_inj [rotated])
    with dd show "p = q" by (simp add: pe qe)
  qed
  moreover have "distinct (filter (hits bs x y) dirDist)"
    using distinct_dirDist by (rule distinct_filter)
  ultimately show ?thesis by (simp add: distinct_map)
qed

lemma filter_key_singleton:
  "distinct (map f xs) \<Longrightarrow> x \<in> set xs \<Longrightarrow> filter (\<lambda>q. f q = f x) xs = [x]"
proof (induction xs)
  case Nil
  then show ?case by simp
next
  case (Cons a xs)
  show ?case
  proof (cases "a = x")
    case True
    with Cons.prems(1) have "f x \<notin> f ` set xs" by simp
    then have "\<forall>q \<in> set xs. f q \<noteq> f x" by (metis imageI)
    then have "filter (\<lambda>q. f q = f x) xs = []"
      by (simp add: filter_empty_conv)
    with True show ?thesis by simp
  next
    case False
    with Cons.prems have "x \<in> set xs" by simp
    then have "f x \<in> f ` set xs" by (rule imageI)
    with Cons.prems(1) have "f a \<noteq> f x" by auto
    with Cons.IH Cons.prems \<open>x \<in> set xs\<close> show ?thesis by simp
  qed
qed

lemma shapePass_eq:
  assumes "0 \<le> x" "x < bs" "0 \<le> y" "y < bs" "bs \<le> 127"
  shows "shapePass bs dP x y it =
     ((\<lambda>i d. it i d + shapeSum bs dP x y dirDist i d),
      map (mkChange bs dP x y it) (filter (hits bs x y) dirDist))"
  unfolding shapePass_def using shape_fold [OF distinct_keys [OF assms], of dP it "[]"] by simp

lemma shapeSum_hit:
  assumes "0 \<le> x" "x < bs" "0 \<le> y" "y < bs" "bs \<le> 127"
    and "p \<in> set dirDist" "hits bs x y p"
  shows "shapeSum bs dP x y dirDist (fst (keyOf bs x y p)) (snd (keyOf bs x y p)) = shapeDelta dP p"
proof -
  have "filter (\<lambda>q. hits bs x y q \<and> keyOf bs x y q = keyOf bs x y p) dirDist
      = filter (\<lambda>q. keyOf bs x y q = keyOf bs x y p) (filter (hits bs x y) dirDist)"
    by (simp add: conj_commute)
  also have "\<dots> = [p]"
    using distinct_keys [OF assms(1-5)] assms(6,7) by (intro filter_key_singleton) simp_all
  finally show ?thesis by (simp add: shapeSum_def)
qed

lemma shapeSum_miss:
  assumes "\<forall>p \<in> set dirDist. hits bs x y p \<longrightarrow> keyOf bs x y p \<noteq> (i, d)"
  shows "shapeSum bs dP x y dirDist i d = 0"
proof -
  have "filter (\<lambda>p. hits bs x y p \<and> keyOf bs x y p = (i, d)) dirDist = []"
    using assms by (auto simp: filter_empty_conv)
  then show ?thesis by (simp add: shapeSum_def)
qed

lemma indexTable_update_MOVE:
  "indexTable (update_MOVE D w c x y a)
     = fst (shapePass (boardSize a) (dPower3 MOVE c) x y (indexTable a))"
  by (simp add: update_MOVE_def Let_def split: prod.splits)

lemma indexTable_update_UNDO:
  "indexTable (update_UNDO D w c x y backup a)
     = fst (shapePass (boardSize a) (dPower3 UNDO c) x y (indexTable a))"
  by (simp add: update_UNDO_def Let_def split: prod.splits)

lemma shapePass_entry_hit:
  assumes b: "0 \<le> x" "x < bs" "0 \<le> y" "y < bs" "bs \<le> 127"
    and d: "dir < 4" "- 5 \<le> dist" "dist \<le> 5"
    and on: "onBoard bs (x - dist * DX dir) (y - dist * DY dir)"
  shows "fst (shapePass bs dP x y it) ((y - dist * DY dir) * bs + (x - dist * DX dir)) dir
     = it ((y - dist * DY dir) * bs + (x - dist * DX dir)) dir
         + word_of_int (dP * Power3 (nat (dist + 5)))"
proof -
  have m: "(dir, dist) \<in> set dirDist" using d by (simp add: set_dirDist)
  have h: "hits bs x y (dir, dist)" using hits_onBoard [OF b m] on by simp
  have k: "keyOf bs x y (dir, dist) = ((y - dist * DY dir) * bs + (x - dist * DX dir), dir)"
    using keyOf_onBoard [OF b(5) on] by (simp add: mult.commute)
  from shapeSum_hit [OF b m h, of dP] show ?thesis
    by (simp add: shapePass_eq [OF b] k shapeDelta_def)
qed

lemma shapePass_entry_miss:
  assumes b: "0 \<le> x" "x < bs" "0 \<le> y" "y < bs" "bs \<le> 127"
    and no: "\<not> (\<exists>dist. dir < 4 \<and> - 5 \<le> dist \<and> dist \<le> 5
               \<and> onBoard bs (x - dist * DX dir) (y - dist * DY dir)
               \<and> i = (y - dist * DY dir) * bs + (x - dist * DX dir))"
  shows "fst (shapePass bs dP x y it) i dir = it i dir"
proof -
  have "\<forall>p \<in> set dirDist. hits bs x y p \<longrightarrow> keyOf bs x y p \<noteq> (i, dir)"
  proof (intro ballI impI)
    fix p assume p: "p \<in> set dirDist" and h: "hits bs x y p"
    obtain dir' dist where pe: "p = (dir', dist)" by (cases p)
    from p pe have m: "(dir', dist) \<in> set dirDist" by simp
    then have d: "dir' < 4" "- 5 \<le> dist" "dist \<le> 5" by (simp_all add: set_dirDist)
    have on: "onBoard bs (x - dist * DX dir') (y - dist * DY dir')"
      using hits_onBoard [OF b m] h pe by simp
    have k: "keyOf bs x y p = ((y - dist * DY dir') * bs + (x - dist * DX dir'), dir')"
      using keyOf_onBoard [OF b(5) on] by (simp add: mult.commute pe)
    show "keyOf bs x y p \<noteq> (i, dir)"
    proof
      assume "keyOf bs x y p = (i, dir)"
      with k have "dir' = dir" "i = (y - dist * DY dir') * bs + (x - dist * DX dir')" by simp_all
      with d on no show False by blast
    qed
  qed
  then have "shapeSum bs dP x y dirDist i dir = 0" by (rule shapeSum_miss)
  then show ?thesis by (simp add: shapePass_eq [OF b])
qed

text \<open>
  C2.  When \<^verbatim>\<open>update\<close> places or removes a stone of colour \<open>c\<close> at a point \<open>(x, y)\<close> of the
  board, then for each direction \<open>dir < 4\<close> and each \<open>dist\<close> from \<open>- 5\<close> to \<open>5\<close> the test on the
  sign of the bitwise disjunction skips the cell \<open>(x - dist \<cdot> DX dir, y - dist \<cdot> DY dir)\<close>
  exactly when that cell is off the board; for a cell on the board the entry of
  \<^verbatim>\<open>indexTable\<close> at \<open>yi \<cdot> boardSize + xi\<close> and \<open>dir\<close> becomes its old value plus
  \<open>(c + 1) \<cdot> Power3 (dist + 5)\<close> on a move and plus \<open>(- c - 1) \<cdot> Power3 (dist + 5)\<close> on an undo;
  every other entry of \<^verbatim>\<open>indexTable\<close> keeps its value.
\<close>

theorem index_table_update:
  assumes b: "0 \<le> x" "x < boardSize a" "0 \<le> y" "y < boardSize a" "boardSize a \<le> 127"
  shows "(\<forall>dir dist. dir < 4 \<and> - 5 \<le> dist \<and> dist \<le> 5 \<longrightarrow>
           (offBoard (boardSize a) (x - dist * DX dir) (y - dist * DY dir)
              \<longleftrightarrow> \<not> onBoard (boardSize a) (x - dist * DX dir) (y - dist * DY dir))
         \<and> (onBoard (boardSize a) (x - dist * DX dir) (y - dist * DY dir) \<longrightarrow>
              indexTable (update_MOVE D w c x y a)
                  ((y - dist * DY dir) * boardSize a + (x - dist * DX dir)) dir
                = indexTable a ((y - dist * DY dir) * boardSize a + (x - dist * DX dir)) dir
                    + word_of_int ((color_code c + 1) * Power3 (nat (dist + 5)))
            \<and> indexTable (update_UNDO D w c x y backup a)
                  ((y - dist * DY dir) * boardSize a + (x - dist * DX dir)) dir
                = indexTable a ((y - dist * DY dir) * boardSize a + (x - dist * DX dir)) dir
                    + word_of_int ((- color_code c - 1) * Power3 (nat (dist + 5)))))
    \<and> (\<forall>i dir. \<not> (\<exists>dist. dir < 4 \<and> - 5 \<le> dist \<and> dist \<le> 5
               \<and> onBoard (boardSize a) (x - dist * DX dir) (y - dist * DY dir)
               \<and> i = (y - dist * DY dir) * boardSize a + (x - dist * DX dir)) \<longrightarrow>
          indexTable (update_MOVE D w c x y a) i dir = indexTable a i dir
        \<and> indexTable (update_UNDO D w c x y backup a) i dir = indexTable a i dir)"
proof (intro conjI allI impI)
  fix dir :: nat and dist :: int
  assume d: "dir < 4 \<and> - 5 \<le> dist \<and> dist \<le> 5"
  then have m: "(dir, dist) \<in> set dirDist" by (simp add: set_dirDist)
  show "offBoard (boardSize a) (x - dist * DX dir) (y - dist * DY dir)
              \<longleftrightarrow> \<not> onBoard (boardSize a) (x - dist * DX dir) (y - dist * DY dir)"
    using hits_onBoard [OF b m] by (auto simp: hits_def)
  assume on: "onBoard (boardSize a) (x - dist * DX dir) (y - dist * DY dir)"
  from d have d': "dir < 4" "- 5 \<le> dist" "dist \<le> 5" by simp_all
  show "indexTable (update_MOVE D w c x y a)
                  ((y - dist * DY dir) * boardSize a + (x - dist * DX dir)) dir
                = indexTable a ((y - dist * DY dir) * boardSize a + (x - dist * DX dir)) dir
                    + word_of_int ((color_code c + 1) * Power3 (nat (dist + 5)))"
    unfolding indexTable_update_MOVE shapePass_entry_hit [OF b d' on]
    by (simp add: dPower3_def)
  show "indexTable (update_UNDO D w c x y backup a)
                  ((y - dist * DY dir) * boardSize a + (x - dist * DX dir)) dir
                = indexTable a ((y - dist * DY dir) * boardSize a + (x - dist * DX dir)) dir
                    + word_of_int ((- color_code c - 1) * Power3 (nat (dist + 5)))"
  proof -
    have "dPower3 UNDO c = - color_code c - 1" by (simp add: dPower3_def)
    then show ?thesis
      unfolding indexTable_update_UNDO shapePass_entry_hit [OF b d' on] by (simp only:)
  qed
next
  fix i :: int and dir :: nat
  assume no: "\<not> (\<exists>dist. dir < 4 \<and> - 5 \<le> dist \<and> dist \<le> 5
               \<and> onBoard (boardSize a) (x - dist * DX dir) (y - dist * DY dir)
               \<and> i = (y - dist * DY dir) * boardSize a + (x - dist * DX dir))"
  show "indexTable (update_MOVE D w c x y a) i dir = indexTable a i dir"
    unfolding indexTable_update_MOVE by (rule shapePass_entry_miss [OF b no])
  show "indexTable (update_UNDO D w c x y backup a) i dir = indexTable a i dir"
    unfolding indexTable_update_UNDO by (rule shapePass_entry_miss [OF b no])
qed

theorem index_table_update_witness:
  "boardSize exampleAccumulator = 15 \<and> onBoard 15 7 5 \<and> \<not> offBoard 15 7 5
   \<and> indexTable (update_MOVE exampleDims exampleWeight WHITE 7 7 exampleAccumulator) 82 1 = 4374
   \<and> indexTable (update_UNDO exampleDims exampleWeight WHITE 7 7 (valueSum exampleAccumulator)
         exampleAccumulator) 82 1 = - 4374
   \<and> indexTable (update_MOVE exampleDims exampleWeight WHITE 7 7 exampleAccumulator) 0 0 = 0"
proof -
  have b: "(0::int) \<le> 7" "7 < boardSize exampleAccumulator" "boardSize exampleAccumulator \<le> 127"
    by (simp_all add: boardSize_example)
  note t = index_table_update [where a = exampleAccumulator and x = 7 and y = 7 and c = WHITE
      and D = exampleDims and w = exampleWeight and backup = "valueSum exampleAccumulator",
      OF b(1) b(2) b(1) b(2) b(3)]
  have on: "onBoard 15 7 5" by (simp add: onBoard_def)
  have d: "(1::nat) < 4 \<and> - 5 \<le> (2::int) \<and> (2::int) \<le> 5" by simp
  have xy: "7 - 2 * DX 1 = 7" "7 - 2 * DY 1 = 5" by (simp_all add: DX.simps DY.simps)
  note h = t [THEN conjunct1, THEN spec, THEN spec, THEN mp, OF d, unfolded boardSize_example xy]
  have off: "\<not> offBoard 15 7 5"
    using h [THEN conjunct1] on by simp
  note e = h [THEN conjunct2, THEN mp, OF on]
  have mv: "indexTable (update_MOVE exampleDims exampleWeight WHITE 7 7 exampleAccumulator) 82 1 = 4374"
    using e [THEN conjunct1] by (simp add: indexTable_example Power3_def)
  have un: "indexTable (update_UNDO exampleDims exampleWeight WHITE 7 7 (valueSum exampleAccumulator)
         exampleAccumulator) 82 1 = - 4374"
    using e [THEN conjunct2] by (simp add: indexTable_example Power3_def)
  have no: "\<not> (\<exists>dist. (0::nat) < 4 \<and> - 5 \<le> dist \<and> dist \<le> 5
               \<and> onBoard (boardSize exampleAccumulator) (7 - dist * DX 0) (7 - dist * DY 0)
               \<and> (0::int) = (7 - dist * DY 0) * boardSize exampleAccumulator + (7 - dist * DX 0))"
    by (simp add: boardSize_example DX.simps DY.simps)
  have other: "indexTable (update_MOVE exampleDims exampleWeight WHITE 7 7 exampleAccumulator) 0 0 = 0"
    using t [THEN conjunct2, THEN spec, THEN spec, THEN mp, OF no, THEN conjunct1]
    by (simp add: indexTable_example)
  show ?thesis
    by (intro conjI) (rule boardSize_example on off mv un other)+
qed

subsection \<open>The rectangle of the value sum\<close>

lemma set_dirtyRect:
  "set (dirtyRect bs x y)
     = {(xi, yi). x - 5 \<le> xi \<and> xi \<le> x + 7 \<and> 1 \<le> xi \<and> xi \<le> bs
                \<and> y - 5 \<le> yi \<and> yi \<le> y + 7 \<and> 1 \<le> yi \<and> yi \<le> bs}"
proof -
  have "(xi, yi) \<in> set (dirtyRect bs x y) \<longleftrightarrow>
      x - 5 \<le> xi \<and> xi \<le> x + 7 \<and> 1 \<le> xi \<and> xi \<le> bs
                \<and> y - 5 \<le> yi \<and> yi \<le> y + 7 \<and> 1 \<le> yi \<and> yi \<le> bs" for xi yi
    by (auto simp: dirtyRect_def Let_def image_iff)
  then show ?thesis by auto
qed

lemma change_coords:
  assumes b: "0 \<le> x" "x < bs" "0 \<le> y" "y < bs" "bs \<le> 127"
    and c: "c \<in> set (snd (shapePass bs dP x y it))"
  shows "x - 5 \<le> c_x c \<and> c_x c \<le> x + 5 \<and> y - 5 \<le> c_y c \<and> c_y c \<le> y + 5
         \<and> onBoard bs (c_x c) (c_y c) \<and> c_innerIdx c = bs * c_y c + c_x c"
proof -
  from c obtain p where p: "p \<in> set dirDist" "hits bs x y p" and ce: "c = mkChange bs dP x y it p"
    by (auto simp: shapePass_eq [OF b])
  obtain dir dist where pe: "p = (dir, dist)" by (cases p)
  from p pe have m: "(dir, dist) \<in> set dirDist" by simp
  then have d: "- 5 \<le> dist" "dist \<le> 5" by (simp_all add: set_dirDist)
  have on: "onBoard bs (x - dist * DX dir) (y - dist * DY dir)"
    using hits_onBoard [OF b m] p(2) pe by simp
  then have r: "0 \<le> x - dist * DX dir" "x - dist * DX dir < 128"
    "0 \<le> y - dist * DY dir" "y - dist * DY dir < 128"
    using b(5) by (simp_all add: onBoard_def)
  have cx: "c_x c = x - dist * DX dir" and cy: "c_y c = y - dist * DY dir"
    using r by (simp_all add: ce pe mkChange_def int8_id)
  have ci: "c_innerIdx c = bs * (y - dist * DY dir) + (x - dist * DX dir)"
    using inner_bounds [OF on b(5)] by (simp add: ce pe mkChange_def int16_id)
  show ?thesis
    using offset_bounds [OF d, of dir] on by (simp add: cx cy ci)
qed

text \<open>
  C3, with the rectangle the code uses.  On the move path at a point \<open>(x, y)\<close> of the board
  the outer cells whose rectified \<^verbatim>\<open>mapAfterDWConv\<close> is taken out of the value sum before
  the changes and put back after them are exactly the cells \<open>(xi, yi)\<close> with
  \<open>max (x - 5) 1 \<le> xi \<le> min (x + 7) boardSize\<close> and the same for \<open>yi\<close>: the board cells from
  \<open>x - 6\<close> to \<open>x + 6\<close> and from \<open>y - 6\<close> to \<open>y + 6\<close>, cut to the board without its halo.  This
  rectangle holds every outer cell inside the board that the \<open>3 \<times> 3\<close> stencil of a changed
  \<^verbatim>\<open>mapSum\<close> cell writes, and the value sum of the result is the put-back pass over it,
  run on the outcome of the changes applied to the take-out pass over it.
\<close>

theorem dirty_rectangle:
  assumes b: "0 \<le> x" "x < boardSize a" "0 \<le> y" "y < boardSize a" "boardSize a \<le> 127"
  shows "set (dirtyRect (boardSize a) x y)
       = {(xi, yi). x - 5 \<le> xi \<and> xi \<le> x + 7 \<and> 1 \<le> xi \<and> xi \<le> boardSize a
                  \<and> y - 5 \<le> yi \<and> yi \<le> y + 7 \<and> 1 \<le> yi \<and> yi \<le> boardSize a}
    \<and> (\<forall>c \<in> set (snd (shapePass (boardSize a) (dPower3 MOVE col) x y (indexTable a))).
          \<forall>dy dx. 0 \<le> dy \<and> dy \<le> 2 \<and> 0 \<le> dx \<and> dx \<le> 2
             \<and> 1 \<le> c_x c + dx \<and> c_x c + dx \<le> boardSize a
             \<and> 1 \<le> c_y c + dy \<and> c_y c + dy \<le> boardSize a
             \<longrightarrow> (c_x c + dx, c_y c + dy) \<in> set (dirtyRect (boardSize a) x y))
    \<and> valueSum (update_MOVE D w col x y a)
       = foldl (rectStep D True (boardSize a) (mapAfterDWConv (update_MOVE D w col x y a)))
           (snd (snd (featurePass D MOVE w (boardSize a)
              (snd (shapePass (boardSize a) (dPower3 MOVE col) x y (indexTable a)))
              (mapSum a, mapAfterDWConv a,
               foldl (rectStep D False (boardSize a) (mapAfterDWConv a)) (valueSum a)
                 (dirtyRect (boardSize a) x y)))))
           (dirtyRect (boardSize a) x y)"
proof (intro conjI ballI allI impI)
  show "set (dirtyRect (boardSize a) x y)
       = {(xi, yi). x - 5 \<le> xi \<and> xi \<le> x + 7 \<and> 1 \<le> xi \<and> xi \<le> boardSize a
                  \<and> y - 5 \<le> yi \<and> yi \<le> y + 7 \<and> 1 \<le> yi \<and> yi \<le> boardSize a}"
    by (rule set_dirtyRect)
next
  fix c dy dx
  assume c: "c \<in> set (snd (shapePass (boardSize a) (dPower3 MOVE col) x y (indexTable a)))"
    and s: "0 \<le> dy \<and> dy \<le> 2 \<and> 0 \<le> dx \<and> dx \<le> 2
             \<and> 1 \<le> c_x c + dx \<and> c_x c + dx \<le> boardSize a
             \<and> 1 \<le> c_y c + dy \<and> c_y c + dy \<le> boardSize a"
  from change_coords [OF b c] s
  show "(c_x c + dx, c_y c + dy) \<in> set (dirtyRect (boardSize a) x y)"
    by (simp add: set_dirtyRect)
next
  show "valueSum (update_MOVE D w col x y a)
       = foldl (rectStep D True (boardSize a) (mapAfterDWConv (update_MOVE D w col x y a)))
           (snd (snd (featurePass D MOVE w (boardSize a)
              (snd (shapePass (boardSize a) (dPower3 MOVE col) x y (indexTable a)))
              (mapSum a, mapAfterDWConv a,
               foldl (rectStep D False (boardSize a) (mapAfterDWConv a)) (valueSum a)
                 (dirtyRect (boardSize a) x y)))))
           (dirtyRect (boardSize a) x y)"
    by (simp add: update_MOVE_def Let_def split: prod.splits)
qed

theorem dirty_rectangle_witness:
  "mkChange 15 1 7 7 (\<lambda>i dir. 0) (0, - 5)
      \<in> set (snd (shapePass (boardSize exampleAccumulator) (dPower3 MOVE BLACK) 7 7
                (indexTable exampleAccumulator)))
   \<and> c_x (mkChange 15 1 7 7 (\<lambda>i dir. 0) (0, - 5)) = 12
   \<and> c_y (mkChange 15 1 7 7 (\<lambda>i dir. 0) (0, - 5)) = 7
   \<and> (14, 9) \<in> set (dirtyRect (boardSize exampleAccumulator) 7 7)"
proof -
  have b: "(0::int) \<le> 7" "7 < boardSize exampleAccumulator" "(0::int) \<le> 7"
    "7 < boardSize exampleAccumulator" "boardSize exampleAccumulator \<le> 127"
    by (simp_all add: boardSize_example)
  note t = dirty_rectangle [where a = exampleAccumulator and x = 7 and y = 7 and col = BLACK
      and D = exampleDims and w = exampleWeight, OF b]
  have it: "indexTable exampleAccumulator = (\<lambda>i dir. 0)"
    by (simp add: exampleAccumulator_def)
  have dP: "dPower3 MOVE BLACK = 1" by (simp add: dPower3_def)
  have m: "(0, - 5) \<in> set dirDist" by (simp add: set_dirDist)
  have xy: "7 - (- 5) * DX 0 = 12" "7 - (- 5) * DY 0 = 7" by (simp_all add: DX.simps DY.simps)
  have hit: "hits 15 7 7 (0, - 5)"
    using hits_onBoard [OF b [unfolded boardSize_example] m] by (simp add: onBoard_def DX.simps DY.simps)
  have mem: "mkChange 15 1 7 7 (\<lambda>i dir. 0) (0, - 5)
      \<in> set (snd (shapePass (boardSize exampleAccumulator) (dPower3 MOVE BLACK) 7 7
                (indexTable exampleAccumulator)))"
    unfolding it dP boardSize_example shapePass_eq [OF b [unfolded boardSize_example]] snd_conv
    using m hit by simp
  have cx: "c_x (mkChange 15 1 7 7 (\<lambda>i dir. 0) (0, - 5)) = 12"
    by (simp add: mkChange_def DX.simps DY.simps int8_id)
  have cy: "c_y (mkChange 15 1 7 7 (\<lambda>i dir. 0) (0, - 5)) = 7"
    by (simp add: mkChange_def DX.simps DY.simps int8_id)
  have s: "(0::int) \<le> 2 \<and> (2::int) \<le> 2 \<and> (0::int) \<le> 2 \<and> (2::int) \<le> 2
      \<and> 1 \<le> c_x (mkChange 15 1 7 7 (\<lambda>i dir. 0) (0, - 5)) + 2
      \<and> c_x (mkChange 15 1 7 7 (\<lambda>i dir. 0) (0, - 5)) + 2 \<le> boardSize exampleAccumulator
      \<and> 1 \<le> c_y (mkChange 15 1 7 7 (\<lambda>i dir. 0) (0, - 5)) + 2
      \<and> c_y (mkChange 15 1 7 7 (\<lambda>i dir. 0) (0, - 5)) + 2 \<le> boardSize exampleAccumulator"
    by (simp add: cx cy boardSize_example)
  have cell: "(14, 9) \<in> set (dirtyRect (boardSize exampleAccumulator) 7 7)"
    using t [THEN conjunct2, THEN conjunct1, THEN bspec, OF mem, THEN spec, THEN spec, THEN mp, OF s]
    by (simp add: cx cy)
  show ?thesis
    by (intro conjI) (rule mem cx cy cell)+
qed

text \<open>
  C3 as stated fails on a \<open>15 \<times> 15\<close> board at \<open>(7, 7)\<close>: the outer cell \<open>(14, 8)\<close>, the board
  cell \<open>(13, 7)\<close>, is in the rectangle of the code, and lies outside
  \<open>[x - 5, x + 5] \<times> [y - 5, y + 5]\<close> whether the coordinates are read as outer or as board
  coordinates.
\<close>

theorem dirty_rectangle_counterexample:
  "(14, 8) \<in> set (dirtyRect 15 7 7) \<and> (14, 8) \<notin> specRect 15 7 7 \<and> (14 - 1, 8 - 1) \<notin> specRect 15 7 7"
  by (simp add: set_dirtyRect specRect_def)

subsection \<open>Moves and their undos\<close>

lemma sum_list_neg:
  fixes f :: "'a \<Rightarrow> 'b::ab_group_add"
  shows "sum_list (map (\<lambda>x. - f x) xs) = - sum_list (map f xs)"
  by (induction xs) simp_all

lemma shapeDelta_neg: "shapeDelta (- dP) p = - shapeDelta dP p"
  by (cases p) (simp add: shapeDelta_def)

lemma shapeSum_neg: "shapeSum bs (- dP) x y ps i d = - shapeSum bs dP x y ps i d"
proof -
  have "shapeDelta (- dP) = (\<lambda>p. - shapeDelta dP p)"
    by (simp add: fun_eq_iff shapeDelta_neg)
  then show ?thesis by (simp add: shapeSum_def sum_list_neg)
qed

lemma dPower3_UNDO: "dPower3 UNDO c = - dPower3 MOVE c"
  by (simp add: dPower3_def)

lemma shapePass_round_trip:
  assumes b: "0 \<le> x" "x < bs" "0 \<le> y" "y < bs" "bs \<le> 127"
    and p1: "shapePass bs dP x y it = (it1, cs1)"
  shows "shapePass bs (- dP) x y it1 = (it, map swapChange cs1)"
proof -
  from p1 have it1: "it1 = (\<lambda>i d. it i d + shapeSum bs dP x y dirDist i d)"
    and cs1: "cs1 = map (mkChange bs dP x y it) (filter (hits bs x y) dirDist)"
    by (simp_all add: shapePass_eq [OF b])
  have tab: "(\<lambda>i d. it1 i d + shapeSum bs (- dP) x y dirDist i d) = it"
    by (simp add: it1 shapeSum_neg)
  have ch: "map (mkChange bs (- dP) x y it1) (filter (hits bs x y) dirDist) = map swapChange cs1"
    unfolding cs1 map_map
  proof (rule map_cong [OF refl])
    fix p assume "p \<in> set (filter (hits bs x y) dirDist)"
    then have m: "p \<in> set dirDist" and h: "hits bs x y p" by simp_all
    obtain dir dist where pe: "p = (dir, dist)" by (cases p)
    let ?i = "int16 (bs * (y - dist * DY dir) + (x - dist * DX dir))"
    have k: "keyOf bs x y p = (?i, dir)" by (simp add: keyOf_def pe)
    have "shapeSum bs dP x y dirDist ?i dir = shapeDelta dP p"
      using shapeSum_hit [OF b m h, of dP] by (simp add: k)
    then have "it1 ?i dir = it ?i dir + shapeDelta dP p" by (simp add: it1)
    then show "mkChange bs (- dP) x y it1 p = (swapChange \<circ> mkChange bs dP x y it) p"
      by (simp add: mkChange_def swapChange_def pe shapeDelta_neg)
  qed
  show ?thesis
    unfolding shapePass_eq [OF b] tab ch ..
qed

lemma featureStep_mapSum:
  "fst (featureStep D UT w bs (ms, conv, vs) c)
     = ms(c_innerIdx c := (\<lambda>ch. ms (c_innerIdx c) ch + mapDelta D w c ch))"
  by (auto simp: featureStep_def Let_def mapDelta_def fun_eq_iff)

lemma featurePass_mapSum:
  "fst (featurePass D UT w bs cs (ms, conv, vs)) i ch
     = ms i ch + sum_list (map (\<lambda>c. mapDelta D w c ch) (filter (\<lambda>c. c_innerIdx c = i) cs))"
  unfolding featurePass_def
proof (induction cs arbitrary: ms conv vs)
  case Nil
  then show ?case by simp
next
  case (Cons c cs)
  obtain ms' conv' vs' where st: "featureStep D UT w bs (ms, conv, vs) c = (ms', conv', vs')"
    by (cases "featureStep D UT w bs (ms, conv, vs) c")
  have ms': "ms' = ms(c_innerIdx c := (\<lambda>ch. ms (c_innerIdx c) ch + mapDelta D w c ch))"
    using featureStep_mapSum [of D UT w bs ms conv vs c] st by simp
  have here: "ms' i ch = ms i ch + (if c_innerIdx c = i then mapDelta D w c ch else 0)"
    by (simp add: ms')
  have "fst (foldl (featureStep D UT w bs) (ms, conv, vs) (c # cs)) i ch
      = fst (foldl (featureStep D UT w bs) (ms', conv', vs') cs) i ch"
    by (simp add: st)
  also have "\<dots> = ms' i ch
      + sum_list (map (\<lambda>c. mapDelta D w c ch) (filter (\<lambda>c. c_innerIdx c = i) cs))"
    by (rule Cons.IH)
  also have "\<dots> = ms i ch
      + sum_list (map (\<lambda>c. mapDelta D w c ch) (filter (\<lambda>c. c_innerIdx c = i) (c # cs)))"
    unfolding here by simp
  finally show ?case .
qed

lemma mapDelta_swap: "mapDelta D w (swapChange c) ch = - mapDelta D w c ch"
  by (simp add: mapDelta_def swapChange_def)

lemma c_innerIdx_swap [simp]: "c_innerIdx (swapChange c) = c_innerIdx c"
  "c_x (swapChange c) = c_x c" "c_y (swapChange c) = c_y c"
  by (simp_all add: swapChange_def)

lemma featurePass_mapSum_round_trip:
  assumes "featurePass D UT w bs cs (ms, conv, vs) = (ms1, conv1, vs1)"
  shows "fst (featurePass D UT' w bs (map swapChange cs) (ms1, conv1', vs1')) = ms"
proof (intro ext)
  fix i ch
  have "ms1 i ch = ms i ch + sum_list (map (\<lambda>c. mapDelta D w c ch) (filter (\<lambda>c. c_innerIdx c = i) cs))"
    using featurePass_mapSum [of D UT w bs cs ms conv vs i ch] assms by simp
  moreover have "filter (\<lambda>c. c_innerIdx c = i) (map swapChange cs)
      = map swapChange (filter (\<lambda>c. c_innerIdx c = i) cs)"
    by (simp add: filter_map comp_def)
  ultimately show "fst (featurePass D UT' w bs (map swapChange cs) (ms1, conv1', vs1')) i ch = ms i ch"
    by (simp add: featurePass_mapSum comp_def mapDelta_swap sum_list_neg)
qed

lemma convStep_eq:
  "convStep D w bs c oldF newF conv q
     = (\<lambda>outer ch. conv outer ch
          + (if outerOf bs (c_x c) (c_y c) q = outer then tap D w newF q ch - tap D w oldF q ch else 0))"
  by (cases q) (auto simp: convStep_def Let_def outerOf_def tap_def fun_eq_iff)

lemma convStep_fold:
  "foldl (convStep D w bs c oldF newF) conv qs
     = (\<lambda>outer ch. conv outer ch + scatter D w bs (c_x c) (c_y c) newF qs outer ch
                      - scatter D w bs (c_x c) (c_y c) oldF qs outer ch)"
proof (induction qs arbitrary: conv)
  case Nil
  then show ?case by (simp add: scatter_def)
next
  case (Cons q qs)
  have "foldl (convStep D w bs c oldF newF) conv (q # qs)
      = (\<lambda>outer ch. convStep D w bs c oldF newF conv q outer ch
            + scatter D w bs (c_x c) (c_y c) newF qs outer ch
            - scatter D w bs (c_x c) (c_y c) oldF qs outer ch)"
    by (simp only: foldl_Cons Cons.IH)
  also have "\<dots> = (\<lambda>outer ch. conv outer ch + scatter D w bs (c_x c) (c_y c) newF (q # qs) outer ch
                      - scatter D w bs (c_x c) (c_y c) oldF (q # qs) outer ch)"
    by (auto simp: convStep_eq scatter_def fun_eq_iff)
  finally show ?case .
qed

lemma featureStep_conv:
  "fst (snd (featureStep D UT w bs (ms, conv, vs) c))
     = (\<lambda>outer ch. conv outer ch
          + scatter D w bs (c_x c) (c_y c)
              (\<lambda>ch. prelu (ms (c_innerIdx c) ch + mapDelta D w c ch) (map_prelu_weight w ch))
              stencil outer ch
          - scatter D w bs (c_x c) (c_y c)
              (\<lambda>ch. prelu (ms (c_innerIdx c) ch) (map_prelu_weight w ch)) stencil outer ch)"
proof -
  have new: "(if ch < FeatureDim D
                   then ms (c_innerIdx c) ch - mapping w (oldShape c) ch + mapping w (newShape c) ch
                   else ms (c_innerIdx c) ch)
      = ms (c_innerIdx c) ch + mapDelta D w c ch" for ch
    by (simp add: mapDelta_def)
  show ?thesis
    by (simp add: featureStep_def Let_def convStep_fold new)
qed

lemma sum_list_change_one:
  fixes f g :: "'a \<Rightarrow> 'b::ab_group_add"
  assumes "distinct xs" "x \<in> set xs" "\<forall>z \<in> set xs. z \<noteq> x \<longrightarrow> g z = f z"
  shows "sum_list (map g xs) = sum_list (map f xs) + g x - f x"
  using assms
proof (induction xs)
  case Nil
  then show ?case by simp
next
  case (Cons a xs)
  show ?case
  proof (cases "a = x")
    case True
    with Cons.prems have "\<forall>z \<in> set xs. g z = f z" by auto
    then have "map g xs = map f xs" by simp
    then have "sum_list (map g xs) = sum_list (map f xs)" by (simp only:)
    with True show ?thesis by simp
  next
    case False
    with Cons.prems have "x \<in> set xs" "distinct xs" "\<forall>z \<in> set xs. z \<noteq> x \<longrightarrow> g z = f z"
      and "g a = f a" by auto
    with Cons.IH show ?thesis by simp
  qed
qed

lemma set_boardCells: "set (boardCells bs) = {(y, x). 0 \<le> y \<and> y < bs \<and> 0 \<le> x \<and> x < bs}"
proof -
  have "(y, x) \<in> set (boardCells bs) \<longleftrightarrow> 0 \<le> y \<and> y < bs \<and> 0 \<le> x \<and> x < bs" for x y
    by (auto simp: boardCells_def image_iff)
  then show ?thesis by auto
qed

lemma distinct_boardCells: "distinct (boardCells bs)"
proof -
  have "boardCells bs = List.product [0..bs - 1] [0..bs - 1]"
    by (simp add: boardCells_def product_concat_map)
  then show ?thesis by (simp add: distinct_product)
qed

lemma convOf_update:
  assumes on: "onBoard bs cx cy"
  shows "convOf D w bs (ms(bs * cy + cx := new)) outer ch
     = convOf D w bs ms outer ch
         + scatter D w bs cx cy (\<lambda>ch. prelu (new ch) (map_prelu_weight w ch)) stencil outer ch
         - scatter D w bs cx cy (\<lambda>ch. prelu (ms (bs * cy + cx) ch) (map_prelu_weight w ch)) stencil outer ch"
proof -
  let ?g = "\<lambda>(cy', cx'). scatter D w bs cx' cy'
       (\<lambda>ch. prelu ((ms(bs * cy + cx := new)) (bs * cy' + cx') ch) (map_prelu_weight w ch)) stencil outer ch"
  let ?f = "\<lambda>(cy', cx'). scatter D w bs cx' cy'
       (\<lambda>ch. prelu (ms (bs * cy' + cx') ch) (map_prelu_weight w ch)) stencil outer ch"
  have mem: "(cy, cx) \<in> set (boardCells bs)"
    using on by (simp add: set_boardCells onBoard_def)
  have others: "\<forall>z \<in> set (boardCells bs). z \<noteq> (cy, cx) \<longrightarrow> ?g z = ?f z"
  proof (intro ballI impI)
    fix z assume z: "z \<in> set (boardCells bs)" and ne: "z \<noteq> (cy, cx)"
    obtain cy' cx' where ze: "z = (cy', cx')" by (cases z)
    from z ze have on': "onBoard bs cx' cy'" by (simp add: set_boardCells onBoard_def)
    have "bs * cy' + cx' \<noteq> bs * cy + cx"
      using inner_inj [OF on' on] ne ze by auto
    then show "?g z = ?f z" by (simp add: ze)
  qed
  have "sum_list (map ?g (boardCells bs))
      = sum_list (map ?f (boardCells bs)) + ?g (cy, cx) - ?f (cy, cx)"
    using distinct_boardCells mem others by (rule sum_list_change_one)
  then show ?thesis by (simp add: convOf_def)
qed

lemma featureStep_invariant:
  assumes on: "onBoard bs (c_x c) (c_y c)" and idx: "c_innerIdx c = bs * c_y c + c_x c"
    and st: "featureStep D UT w bs (ms, conv, vs) c = (ms', conv', vs')"
  shows "conv' outer ch - convOf D w bs ms' outer ch = conv outer ch - convOf D w bs ms outer ch"
proof -
  have ms': "ms' = ms(bs * c_y c + c_x c := (\<lambda>ch. ms (c_innerIdx c) ch + mapDelta D w c ch))"
    using featureStep_mapSum [of D UT w bs ms conv vs c] st idx by simp
  have conv': "conv' = (\<lambda>outer ch. conv outer ch
          + scatter D w bs (c_x c) (c_y c)
              (\<lambda>ch. prelu (ms (c_innerIdx c) ch + mapDelta D w c ch) (map_prelu_weight w ch))
              stencil outer ch
          - scatter D w bs (c_x c) (c_y c)
              (\<lambda>ch. prelu (ms (c_innerIdx c) ch) (map_prelu_weight w ch)) stencil outer ch)"
    using featureStep_conv [of D UT w bs ms conv vs c] st by simp
  show ?thesis
    unfolding ms' convOf_update [OF on] conv' by (simp add: idx)
qed

lemma featurePass_invariant:
  assumes "\<forall>c \<in> set cs. onBoard bs (c_x c) (c_y c) \<and> c_innerIdx c = bs * c_y c + c_x c"
    and "featurePass D UT w bs cs (ms, conv, vs) = (ms', conv', vs')"
  shows "conv' outer ch - convOf D w bs ms' outer ch = conv outer ch - convOf D w bs ms outer ch"
  using assms unfolding featurePass_def
proof (induction cs arbitrary: ms conv vs)
  case Nil
  then show ?case by simp
next
  case (Cons c cs)
  obtain ms1 conv1 vs1 where st: "featureStep D UT w bs (ms, conv, vs) c = (ms1, conv1, vs1)"
    by (cases "featureStep D UT w bs (ms, conv, vs) c")
  from Cons.prems(1) have c: "onBoard bs (c_x c) (c_y c)" "c_innerIdx c = bs * c_y c + c_x c"
    and rest: "\<forall>c \<in> set cs. onBoard bs (c_x c) (c_y c) \<and> c_innerIdx c = bs * c_y c + c_x c"
    by simp_all
  from Cons.prems(2) have "foldl (featureStep D UT w bs) (ms1, conv1, vs1) cs = (ms', conv', vs')"
    by (simp add: st)
  from Cons.IH [OF rest this]
  have "conv' outer ch - convOf D w bs ms' outer ch = conv1 outer ch - convOf D w bs ms1 outer ch" .
  also have "\<dots> = conv outer ch - convOf D w bs ms outer ch"
    using c st by (rule featureStep_invariant)
  finally show ?case .
qed

lemma swap_coords [simp]:
  "c_x (swapChange c) = c_x c" "c_y (swapChange c) = c_y c"
  by (simp_all add: swapChange_def)

lemma update_round_trip:
  assumes b: "0 \<le> x" "x < boardSize a" "0 \<le> y" "y < boardSize a" "boardSize a \<le> 127"
  shows "update_UNDO D w c x y (valueSum a) (update_MOVE D w c x y a) = a"
proof -
  define bs where "bs = boardSize a"
  note b' = b [folded bs_def]
  define vs0 where "vs0 = foldl (rectStep D False bs (mapAfterDWConv a)) (valueSum a) (dirtyRect bs x y)"
  obtain it1 cs1 where sp: "shapePass bs (dPower3 MOVE c) x y (indexTable a) = (it1, cs1)"
    by (cases "shapePass bs (dPower3 MOVE c) x y (indexTable a)")
  obtain ms1 conv1 vs1 where fp: "featurePass D MOVE w bs cs1 (mapSum a, mapAfterDWConv a, vs0) = (ms1, conv1, vs1)"
    by (cases "featurePass D MOVE w bs cs1 (mapSum a, mapAfterDWConv a, vs0)")
  define vs2 where "vs2 = foldl (rectStep D True bs conv1) vs1 (dirtyRect bs x y)"
  have mv: "update_MOVE D w c x y a
      = a\<lparr>indexTable := it1, mapSum := ms1, mapAfterDWConv := conv1, valueSum := vs2\<rparr>"
    by (simp add: update_MOVE_def Let_def bs_def [symmetric] vs0_def [symmetric] sp fp vs2_def)
  have sp2: "shapePass bs (dPower3 UNDO c) x y it1 = (indexTable a, map swapChange cs1)"
    unfolding dPower3_UNDO using b' sp by (rule shapePass_round_trip)
  obtain ms2 conv2 vs3 where fp2: "featurePass D UNDO w bs (map swapChange cs1) (ms1, conv1, vs2) = (ms2, conv2, vs3)"
    by (cases "featurePass D UNDO w bs (map swapChange cs1) (ms1, conv1, vs2)")
  have ms2: "ms2 = mapSum a"
    using featurePass_mapSum_round_trip [OF fp, of UNDO conv1 vs2] fp2 by simp
  have coords: "\<forall>c \<in> set cs1. onBoard bs (c_x c) (c_y c) \<and> c_innerIdx c = bs * c_y c + c_x c"
  proof
    fix ch assume "ch \<in> set cs1"
    then have "ch \<in> set (snd (shapePass bs (dPower3 MOVE c) x y (indexTable a)))" by (simp add: sp)
    from change_coords [OF b' this]
    show "onBoard bs (c_x ch) (c_y ch) \<and> c_innerIdx ch = bs * c_y ch + c_x ch" by simp
  qed
  then have coords2: "\<forall>c \<in> set (map swapChange cs1).
      onBoard bs (c_x c) (c_y c) \<and> c_innerIdx c = bs * c_y c + c_x c"
    by simp
  have conv2: "conv2 = mapAfterDWConv a"
  proof (intro ext)
    fix outer ch
    have "conv2 outer ch - convOf D w bs ms2 outer ch = conv1 outer ch - convOf D w bs ms1 outer ch"
      using coords2 fp2 by (rule featurePass_invariant)
    also have "\<dots> = mapAfterDWConv a outer ch - convOf D w bs (mapSum a) outer ch"
      using coords fp by (rule featurePass_invariant)
    finally show "conv2 outer ch = mapAfterDWConv a outer ch"
      by (simp add: ms2)
  qed
  show ?thesis
    by (simp add: update_UNDO_def mv Let_def bs_def [symmetric] sp2 fp2 ms2 conv2)
qed

lemma boardSize_update_MOVE [simp]: "boardSize (update_MOVE D w c x y a) = boardSize a"
  by (simp add: update_MOVE_def Let_def split: prod.splits)

lemma boardSize_foldl:
  assumes "\<And>a q. boardSize (f a q) = boardSize a"
  shows "boardSize (foldl f a qs) = boardSize a"
  by (induction qs arbitrary: a) (simp_all add: assms)

lemma boardSize_clear [simp]: "boardSize (Mix8Accumulator_clear D w a) = boardSize a"
proof -
  have 1: "boardSize (clearCell D w a q) = boardSize a" for a q
    by (cases q) (simp add: clearCell_def Let_def boardSize_foldl clearConvCell_def split: prod.splits)
  have 2: "boardSize (clearValueCell D a q) = boardSize a" for a q
    by (cases q) (simp add: clearValueCell_def Let_def boardSize_foldl split: prod.splits)
  show ?thesis
    by (simp add: Mix8Accumulator_clear_def Let_def boardSize_foldl 1 2)
qed

lemma undo_move_step:
  assumes "0 \<le> x" "x < boardSize a" "0 \<le> y" "y < boardSize a" "boardSize a \<le> 127"
  shows "undoStep D w c x y (moveStep D w c x y (a, h)) = Some (a, h)"
  using update_round_trip [OF assms] by (simp add: undoStep_def moveStep_def)

lemma boardSize_moveStep: "boardSize (fst (moveStep D w c x y s)) = boardSize (fst s)"
  by (cases s) (simp add: moveStep_def)

lemma moves_then_undos:
  assumes "boardSize (fst s) \<le> 127" "movesOnBoard (boardSize (fst s)) moves"
  shows "undoAll D w (rev moves) (moveAll D w moves s) = Some s"
  using assms
proof (induction moves arbitrary: s)
  case Nil
  then show ?case by (simp add: undoAll_def moveAll_def)
next
  case (Cons m moves)
  obtain c x y where m: "m = (c, x, y)" by (cases m)
  obtain a h where s: "s = (a, h)" by (cases s)
  let ?s1 = "moveStep D w c x y s"
  from Cons.prems m s have on: "0 \<le> x" "x < boardSize a" "0 \<le> y" "y < boardSize a"
    and rest: "movesOnBoard (boardSize a) moves" and le: "boardSize a \<le> 127"
    by (simp_all add: movesOnBoard_def)
  have bs1: "boardSize (fst ?s1) = boardSize a"
    by (simp add: boardSize_moveStep s)
  have ih: "undoAll D w (rev moves) (moveAll D w moves ?s1) = Some ?s1"
    by (rule Cons.IH) (simp_all only: bs1 le rest)
  have "undoAll D w (rev (m # moves)) (moveAll D w (m # moves) s)
      = (case undoAll D w (rev moves) (moveAll D w moves ?s1) of None \<Rightarrow> None
         | Some s' \<Rightarrow> undoStep D w c x y s')"
    by (simp add: undoAll_def moveAll_def m)
  also have "\<dots> = undoStep D w c x y ?s1" by (simp only: ih option.case)
  also have "\<dots> = Some s" unfolding s using on le by (rule undo_move_step)
  finally show ?case .
qed

text \<open>
  C1.  Start from an accumulator that \<^verbatim>\<open>clear\<close> has just filled, place any \<open>k\<close> stones on
  points of the board with \<^verbatim>\<open>update<MOVE>\<close>, the value sum pushed on the history before each,
  then take the \<open>k\<close> stones back in reverse order with \<^verbatim>\<open>update<UNDO>\<close>, each reading and
  popping the snapshot on top: every undo finds its snapshot, and the accumulator at the end
  (\<^verbatim>\<open>indexTable\<close>, \<^verbatim>\<open>mapSum\<close>, \<^verbatim>\<open>mapAfterDWConv\<close> and \<^verbatim>\<open>valueSum\<close>) and the history are
  the ones \<^verbatim>\<open>clear\<close> produced.
\<close>

theorem accumulator_round_trip:
  assumes "boardSize a0 \<le> 127" and "movesOnBoard (boardSize a0) moves"
  shows "undoAll D w (rev moves) (moveAll D w moves (Mix8Accumulator_clear D w a0, history))
           = Some (Mix8Accumulator_clear D w a0, history)"
  by (rule moves_then_undos) (simp_all add: assms)

theorem accumulator_round_trip_witness:
  "boardSize exampleAccumulator \<le> 127
   \<and> movesOnBoard (boardSize exampleAccumulator) [(BLACK, 7, 7), (WHITE, 8, 7), (BLACK, 0, 14)]
   \<and> undoAll exampleDims exampleWeight [(BLACK, 0, 14), (WHITE, 8, 7), (BLACK, 7, 7)]
        (moveAll exampleDims exampleWeight [(BLACK, 7, 7), (WHITE, 8, 7), (BLACK, 0, 14)]
           (Mix8Accumulator_clear exampleDims exampleWeight exampleAccumulator, []))
       = Some (Mix8Accumulator_clear exampleDims exampleWeight exampleAccumulator, [])"
proof -
  have le: "boardSize exampleAccumulator \<le> 127"
    by (simp add: boardSize_example)
  have on: "movesOnBoard (boardSize exampleAccumulator) [(BLACK, 7, 7), (WHITE, 8, 7), (BLACK, 0, 14)]"
    by (simp add: boardSize_example movesOnBoard_def)
  have "undoAll exampleDims exampleWeight (rev [(BLACK, 7, 7), (WHITE, 8, 7), (BLACK, 0, 14)])
        (moveAll exampleDims exampleWeight [(BLACK, 7, 7), (WHITE, 8, 7), (BLACK, 0, 14)]
           (Mix8Accumulator_clear exampleDims exampleWeight exampleAccumulator, []))
       = Some (Mix8Accumulator_clear exampleDims exampleWeight exampleAccumulator, [])"
    using le on by (rule accumulator_round_trip)
  then have rt: "undoAll exampleDims exampleWeight [(BLACK, 0, 14), (WHITE, 8, 7), (BLACK, 7, 7)]
        (moveAll exampleDims exampleWeight [(BLACK, 7, 7), (WHITE, 8, 7), (BLACK, 0, 14)]
           (Mix8Accumulator_clear exampleDims exampleWeight exampleAccumulator, []))
       = Some (Mix8Accumulator_clear exampleDims exampleWeight exampleAccumulator, [])"
    by (simp only: rev.simps append.simps)
  show ?thesis
    by (intro conjI) (rule le on rt)+
qed


end
